theory Spec2Isabelle
  imports Complex_Main "HOL-Library.List_Lexorder" "HOL-Library.Product_Lexorder"
    "HOL-Library.Multiset"
begin

section \<open>Values of the program: strings, errors, floats\<close>

text \<open>
  The program is \<^verbatim>\<open>src/using_python.py\<close>; its one function with content is
  \<^verbatim>\<open>processar_temperaturas\<close>. It reads a text file through \<^verbatim>\<open>csv.reader\<close>
  with delimiter \<^verbatim>\<open>;\<close>, converts the second field of every row with \<^verbatim>\<open>float\<close>,
  keeps four dictionaries keyed by the first field, and finally sorts and formats.

  A Python \<^verbatim>\<open>str\<close> is a sequence of Unicode code points, so a string is modelled as
  a list of code points (integers); \<open>str\<close> turns an ASCII literal into one.
  Lists of integers are ordered lexicographically (HOL-Library.List_Lexorder), which is
  how Python compares two \<^verbatim>\<open>str\<close> values.
\<close>

type_synonym pystr = "int list"

definition str :: "string \<Rightarrow> pystr" where
  "str s = map of_char s"

text \<open>The exceptions the function can raise, as values.\<close>

datatype pyerror = IndexError | ValueError | CsvError | ZeroDivisionError | OverflowError

subsection \<open>Binary64 floats\<close>

text \<open>
  A Python \<^verbatim>\<open>float\<close> is an IEEE-754 binary64 number. \<open>Finite s m e\<close> is the number
  \<open>(-1)^s * m * 2^e\<close> in its unique form with an odd mantissa \<open>m\<close> (zero is
  \<open>Finite s 0 0\<close>, with its sign), so \<open>Finite False 5 1\<close> is \<^verbatim>\<open>10.0\<close> and
  \<open>Finite True 11 (-1)\<close> is \<^verbatim>\<open>-5.5\<close>. The sign and payload of a NaN are not
  observable by this program, so there is one \<open>NaN\<close>.
\<close>

datatype pyfloat = Finite bool int int | Infinity bool | NaN

text \<open>\<^verbatim>\<open>int.bit_length\<close> of a non-negative integer.\<close>

function bit_length :: "int \<Rightarrow> int" where
  "bit_length n = (if n \<le> 0 then 0 else 1 + bit_length (n div 2))"
  by pat_completeness auto
termination
  by (relation "measure nat") auto

declare bit_length.simps [simp del]

text \<open>\<open>floor_log2_ratio p q\<close> is the integer \<open>e\<close> with \<open>2^e \<le> p / q < 2^(e+1)\<close>, for positive \<open>p\<close>, \<open>q\<close>.\<close>

definition floor_log2_ratio :: "int \<Rightarrow> int \<Rightarrow> int" where
  "floor_log2_ratio p q =
     (let d = bit_length p - bit_length q
      in if q * 2 ^ nat d \<le> p * 2 ^ nat (- d) then d else d - 1)"

text \<open>The quotient \<open>num / den\<close> rounded to the nearest integer, a tie to the even one (for \<open>0 \<le> num\<close>, \<open>0 < den\<close>).\<close>

definition round_half_even :: "int \<Rightarrow> int \<Rightarrow> int" where
  "round_half_even num den =
     (let n = num div den; r = num mod den
      in if den < 2 * r \<or> (2 * r = den \<and> odd n) then n + 1 else n)"

function strip_twos :: "int \<Rightarrow> int \<Rightarrow> int \<times> int" where
  "strip_twos m e =
     (if m \<le> 0 then (0, 0)
      else if even m then strip_twos (m div 2) (e + 1)
      else (m, e))"
  by pat_completeness auto
termination
  by (relation "measure (\<lambda>(m, e). nat m)") auto

declare strip_twos.simps [simp del]

text \<open>
  \<open>round_to_double s p q\<close> is the binary64 number nearest to \<open>(-1)^s * p / q\<close>
  (round to nearest, ties to even, the rounding mode Python runs in): the quantum is
  \<open>2^t\<close> with \<open>t = max (e - 52) (-1074)\<close> (53 significant bits, or the subnormal
  quantum), and a result of \<open>2^1024\<close> or more is an infinity.
\<close>

definition round_to_double :: "bool \<Rightarrow> int \<Rightarrow> int \<Rightarrow> pyfloat" where
  "round_to_double s p q =
     (if p = 0 then Finite s 0 0
      else
        let e = floor_log2_ratio p q;
            t = max (e - 52) (- 1074);
            n = round_half_even (p * 2 ^ nat (- t)) (q * 2 ^ nat t)
        in if n = 0 then Finite s 0 0
           else if 971 < t \<or> (t = 971 \<and> 2 ^ 53 \<le> n) then Infinity s
           else (case strip_twos n t of (m, e') \<Rightarrow> Finite s m e'))"

definition signed :: "bool \<Rightarrow> int \<Rightarrow> int" where
  "signed s m = (if s then - m else m)"

text \<open>IEEE addition (\<^verbatim>\<open>somas[nome_da_station] += temperatura\<close>).\<close>

fun float_add :: "pyfloat \<Rightarrow> pyfloat \<Rightarrow> pyfloat" where
  "float_add NaN _ = NaN"
| "float_add _ NaN = NaN"
| "float_add (Infinity s) (Infinity s') = (if s = s' then Infinity s else NaN)"
| "float_add (Infinity s) (Finite _ _ _) = Infinity s"
| "float_add (Finite _ _ _) (Infinity s') = Infinity s'"
| "float_add (Finite s m e) (Finite s' m' e') =
     (let t = min e e';
          c = signed s m * 2 ^ nat (e - t) + signed s' m' * 2 ^ nat (e' - t)
      in if c = 0 then Finite (s \<and> s') 0 0
         else round_to_double (c < 0) (\<bar>c\<bar> * 2 ^ nat t) (2 ^ nat (- t)))"

text \<open>IEEE comparison \<^verbatim>\<open>a < b\<close>: false whenever an operand is a NaN, and \<^verbatim>\<open>-0.0 < 0.0\<close> is false.\<close>

fun float_lt :: "pyfloat \<Rightarrow> pyfloat \<Rightarrow> bool" where
  "float_lt NaN _ = False"
| "float_lt _ NaN = False"
| "float_lt (Infinity s) (Infinity s') = (s \<and> \<not> s')"
| "float_lt (Infinity s) (Finite _ _ _) = s"
| "float_lt (Finite _ _ _) (Infinity s') = (\<not> s')"
| "float_lt (Finite s m e) (Finite s' m' e') =
     (let t = min e e'
      in signed s m * 2 ^ nat (e - t) < signed s' m' * 2 ^ nat (e' - t))"

text \<open>\<^verbatim>\<open>a == b\<close> and \<^verbatim>\<open>a <= b\<close> on floats.\<close>

fun float_eq :: "pyfloat \<Rightarrow> pyfloat \<Rightarrow> bool" where
  "float_eq NaN _ = False"
| "float_eq _ NaN = False"
| "float_eq (Infinity s) (Infinity s') = (s = s')"
| "float_eq (Infinity _) (Finite _ _ _) = False"
| "float_eq (Finite _ _ _) (Infinity _) = False"
| "float_eq (Finite s m e) (Finite s' m' e') =
     (let t = min e e'
      in signed s m * 2 ^ nat (e - t) = signed s' m' * 2 ^ nat (e' - t))"

definition float_le :: "pyfloat \<Rightarrow> pyfloat \<Rightarrow> bool" where
  "float_le a b = (float_lt a b \<or> float_eq a b)"

text \<open>
  The builtins \<^verbatim>\<open>min(a, b)\<close> and \<^verbatim>\<open>max(a, b)\<close> keep the first argument and replace it
  by the second only when the second is strictly smaller (larger).
\<close>

definition py_min :: "pyfloat \<Rightarrow> pyfloat \<Rightarrow> pyfloat" where
  "py_min a b = (if float_lt b a then b else a)"

definition py_max :: "pyfloat \<Rightarrow> pyfloat \<Rightarrow> pyfloat" where
  "py_max a b = (if float_lt a b then b else a)"

text \<open>
  \<^verbatim>\<open>float / int\<close> converts the integer to a float first (\<^verbatim>\<open>PyLong_AsDouble\<close>: correctly
  rounded, \<^verbatim>\<open>OverflowError\<close> when the integer is too large), raises
  \<^verbatim>\<open>ZeroDivisionError\<close> when the divisor is zero, and divides in IEEE arithmetic otherwise.
\<close>

definition PyLong_AsDouble :: "int \<Rightarrow> pyerror + pyfloat" where
  "PyLong_AsDouble n =
     (case round_to_double (n < 0) \<bar>n\<bar> 1 of
        Infinity _ \<Rightarrow> Inl OverflowError
      | x \<Rightarrow> Inr x)"

fun ieee_div :: "pyfloat \<Rightarrow> pyfloat \<Rightarrow> pyfloat" where
  "ieee_div NaN _ = NaN"
| "ieee_div _ NaN = NaN"
| "ieee_div (Infinity s) (Infinity s') = NaN"
| "ieee_div (Infinity s) (Finite s' _ _) = Infinity (s \<noteq> s')"
| "ieee_div (Finite s _ _) (Infinity s') = Finite (s \<noteq> s') 0 0"
| "ieee_div (Finite s m e) (Finite s' m' e') =
     (if m' = 0 then (if m = 0 then NaN else Infinity (s \<noteq> s'))
      else round_to_double (s \<noteq> s') (m * 2 ^ nat (e - e')) (m' * 2 ^ nat (e' - e)))"

definition float_div :: "pyfloat \<Rightarrow> int \<Rightarrow> pyerror + pyfloat" where
  "float_div a w =
     (case PyLong_AsDouble w of
        Inl err \<Rightarrow> Inl err
      | Inr b \<Rightarrow>
          if float_eq b (Finite False 0 0) then Inl ZeroDivisionError
          else Inr (ieee_div a b))"

subsection \<open>The conversion \<^verbatim>\<open>float(row[1])\<close>\<close>

text \<open>
  \<^verbatim>\<open>float\<close> of a string is CPython's \<^verbatim>\<open>PyFloat_FromString\<close>: a string with a
  character outside ASCII has its Unicode spaces and decimal digits replaced by ASCII
  ones (anything else becomes \<^verbatim>\<open>?\<close>, which ends the text); ASCII white space is
  stripped at both ends; underscores are allowed between digits only; what is left
  must be, as a whole, a decimal literal (optional sign, digits with an optional point,
  optional exponent) or \<^verbatim>\<open>inf\<close>, \<^verbatim>\<open>infinity\<close> or \<^verbatim>\<open>nan\<close> in any case with an
  optional sign. The value is the literal's, correctly rounded. The two Unicode tables
  are those of Unicode 14.0.0 (CPython 3.11); characters are given by their code points
  (\<open>32\<close> a space, \<open>43\<close> and \<open>45\<close> the signs, \<open>46\<close> the point, \<open>48\<close> to \<open>57\<close> the
  digits, \<open>63\<close> the question mark, \<open>69\<close> and \<open>101\<close> the exponent letters, \<open>95\<close> the
  underscore).
\<close>

definition Py_ISSPACE :: "int \<Rightarrow> bool" where
  "Py_ISSPACE c = (c = 32 \<or> (9 \<le> c \<and> c \<le> 13))"

definition Py_UNICODE_ISSPACE :: "int \<Rightarrow> bool" where
  "Py_UNICODE_ISSPACE ch =
     ((9 \<le> ch \<and> ch \<le> 13) \<or> (28 \<le> ch \<and> ch \<le> 32) \<or> ch = 133 \<or> ch = 160 \<or> ch = 5760
      \<or> (8192 \<le> ch \<and> ch \<le> 8202) \<or> ch = 8232 \<or> ch = 8233 \<or> ch = 8239 \<or> ch = 8287
      \<or> ch = 12288)"

text \<open>The code points of the digit zero of every decimal digit range; the nine after each are the digits one to nine.\<close>

definition decimal_zeros :: "int list" where
  "decimal_zeros =
     [48,
       1632, 1776, 1984, 2406, 2534, 2662, 2790, 2918, 3046, 3174, 3302, 3430, 3558,
       3664, 3792, 3872, 4160, 4240, 6112, 6160, 6470, 6608, 6784, 6800, 6992, 7088,
       7232, 7248, 42528, 43216, 43264, 43472, 43504, 43600, 44016, 65296, 66720,
       68912, 69734, 69872, 69942, 70096, 70384, 70736, 70864, 71248, 71360, 71472,
       71904, 72016, 72784, 73040, 73120, 92768, 92864, 93008, 120782, 120792,
       120802, 120812, 120822, 123200, 123632, 125264, 130032]"

definition Py_UNICODE_TODECIMAL :: "int \<Rightarrow> int" where
  "Py_UNICODE_TODECIMAL ch =
     (case find (\<lambda>z. z \<le> ch \<and> ch < z + 10) decimal_zeros of
        Some z \<Rightarrow> ch - z
      | None \<Rightarrow> - 1)"

fun transform_chars :: "pystr \<Rightarrow> pystr" where
  "transform_chars [] = []"
| "transform_chars (ch # rest) =
     (if ch < 127 then ch # transform_chars rest
      else if Py_UNICODE_ISSPACE ch then 32 # transform_chars rest
      else
        let decimal = Py_UNICODE_TODECIMAL ch
        in if decimal < 0 then [63] else (48 + decimal) # transform_chars rest)"

definition TransformDecimalAndSpaceToASCII :: "pystr \<Rightarrow> pystr" where
  "TransformDecimalAndSpaceToASCII u =
     (if list_all (\<lambda>ch. ch < 128) u then u else transform_chars u)"

definition strip_space :: "pystr \<Rightarrow> pystr" where
  "strip_space s = rev (dropWhile Py_ISSPACE (rev (dropWhile Py_ISSPACE s)))"

text \<open>
  \<^verbatim>\<open>_Py_string_to_number_with_underscores\<close>: an underscore must follow a digit and be
  followed by a digit; \<open>prev\<close> is the previous character (\<open>0\<close> at the start).
\<close>

definition is_digit :: "int \<Rightarrow> bool" where
  "is_digit c = (48 \<le> c \<and> c \<le> 57)"

fun remove_underscores :: "int \<Rightarrow> pystr \<Rightarrow> pystr option" where
  "remove_underscores prev [] = (if prev = 95 then None else Some [])"
| "remove_underscores prev (c # cs) =
     (if c = 95 then (if is_digit prev then remove_underscores c cs else None)
      else if prev = 95 \<and> \<not> is_digit c then None
      else map_option ((#) c) (remove_underscores c cs))"

definition digits_value :: "pystr \<Rightarrow> int" where
  "digits_value ds = foldl (\<lambda>a c. 10 * a + (c - 48)) 0 ds"

definition parse_sign :: "pystr \<Rightarrow> bool \<times> pystr" where
  "parse_sign s =
     (case s of
        [] \<Rightarrow> (False, [])
      | c # cs \<Rightarrow> if c = 45 then (True, cs) else if c = 43 then (False, cs) else (False, s))"

text \<open>The float nearest to \<open>(-1)^sign * d * 10^k\<close>.\<close>

definition decimal_to_double :: "bool \<Rightarrow> int \<Rightarrow> int \<Rightarrow> pyfloat" where
  "decimal_to_double sign d k =
     (if 0 \<le> k then round_to_double sign (d * 10 ^ nat k) 1
      else round_to_double sign d (10 ^ nat (- k)))"

definition MAX_ABS_EXP :: int where
  "MAX_ABS_EXP = 1100000000"

definition MAX_DIGITS :: int where
  "MAX_DIGITS = 1000000000"

text \<open>
  The exponent part of \<^verbatim>\<open>_Py_dg_strtod\<close>: the exponent and the text left. An
  exponent letter with no digit after it is not part of the number; an exponent of more
  than nine significant digits is clamped.
\<close>

definition parse_exponent :: "pystr \<Rightarrow> int \<times> pystr" where
  "parse_exponent s =
     (case s of
        [] \<Rightarrow> (0, s)
      | c # cs \<Rightarrow>
          if c = 101 \<or> c = 69 then
            (let (esign, s1) = parse_sign cs;
                 zs = takeWhile (\<lambda>c. c = 48) s1;
                 s2 = dropWhile (\<lambda>c. c = 48) s1;
                 ds = takeWhile is_digit s2;
                 s3 = dropWhile is_digit s2;
                 abs_exp = digits_value ds mod 2 ^ 32;
                 e = (if 9 < int (length ds) \<or> MAX_ABS_EXP < abs_exp then MAX_ABS_EXP else abs_exp)
             in if ds = [] \<and> zs = [] then (0, s) else (if esign then - e else e, s3))
          else (0, s))"

text \<open>
  \<^verbatim>\<open>_Py_dg_strtod\<close>: the number at the start of the text and the text left, or
  \<open>None\<close> when no number starts the text.
\<close>

definition dg_strtod :: "pystr \<Rightarrow> (pyfloat \<times> pystr) option" where
  "dg_strtod s00 =
     (let (sign, s) = parse_sign s00;
          ip = takeWhile is_digit s;
          s1 = dropWhile is_digit s;
          (fp, s2) =
            (case s1 of
               [] \<Rightarrow> ([], s1)
             | c # cs \<Rightarrow>
                 if c = 46 then (takeWhile is_digit cs, dropWhile is_digit cs) else ([], s1));
          sig = dropWhile (\<lambda>c. c = 48) (ip @ fp)
      in if ip = [] \<and> fp = [] then None
         else if MAX_DIGITS < int (length sig) \<or> MAX_DIGITS < int (length fp) then None
         else
           let (e, s3) = parse_exponent s2
           in Some (if sig = [] then Finite sign 0 0
                    else decimal_to_double sign (digits_value sig) (e - int (length fp)),
                    s3))"

definition Py_TOLOWER :: "int \<Rightarrow> int" where
  "Py_TOLOWER c = (if 65 \<le> c \<and> c \<le> 90 then c + 32 else c)"

definition case_insensitive_match :: "pystr \<Rightarrow> pystr \<Rightarrow> bool" where
  "case_insensitive_match s t = (take (length t) (map Py_TOLOWER s) = t)"

definition parse_inf_or_nan :: "pystr \<Rightarrow> (pyfloat \<times> pystr) option" where
  "parse_inf_or_nan p =
     (let (negate, s) = parse_sign p
      in if case_insensitive_match s (str ''inf'') then
           (let s1 = drop 3 s
            in Some (Infinity negate,
                     if case_insensitive_match s1 (str ''inity'') then drop 5 s1 else s1))
         else if case_insensitive_match s (str ''nan'') then Some (NaN, drop 3 s)
         else None)"

definition ascii_strtod :: "pystr \<Rightarrow> (pyfloat \<times> pystr) option" where
  "ascii_strtod nptr =
     (case dg_strtod nptr of
        Some r \<Rightarrow> Some r
      | None \<Rightarrow> parse_inf_or_nan nptr)"

definition PyFloat_FromString :: "pystr \<Rightarrow> pyerror + pyfloat" where
  "PyFloat_FromString v =
     (let s = strip_space (TransformDecimalAndSpaceToASCII v)
      in if s = [] then Inl ValueError
         else
           case (if 95 \<in> set s then remove_underscores 0 s else Some s) of
             None \<Rightarrow> Inl ValueError
           | Some dup \<Rightarrow>
               (case ascii_strtod dup of
                  Some (x, []) \<Rightarrow> Inr x
                | _ \<Rightarrow> Inl ValueError))"

subsection \<open>The format \<^verbatim>\<open>.1f\<close>\<close>

text \<open>
  \<^verbatim>\<open>f"{x:.1f}"\<close> prints the decimal with one fractional digit nearest to the exact
  value of the float (a tie to the even digit), with the sign of the float, also when
  the digits are all zero; an infinity is \<^verbatim>\<open>inf\<close> or \<^verbatim>\<open>-inf\<close>, a NaN is \<^verbatim>\<open>nan\<close>.
\<close>

function decimal_digits :: "int \<Rightarrow> pystr" where
  "decimal_digits n = (if n < 10 then [48 + n] else decimal_digits (n div 10) @ [48 + n mod 10])"
  by pat_completeness auto
termination
  by (relation "measure nat") auto

declare decimal_digits.simps [simp del]

definition format_1f :: "pyfloat \<Rightarrow> pystr" where
  "format_1f x =
     (case x of
        NaN \<Rightarrow> str ''nan''
      | Infinity s \<Rightarrow> (if s then str ''-inf'' else str ''inf'')
      | Finite s m e \<Rightarrow>
          (let n = round_half_even (10 * m * 2 ^ nat e) (2 ^ nat (- e))
           in (if s then [45] else []) @ decimal_digits (n div 10) @ [46] @ decimal_digits (n mod 10)))"

section \<open>The \<^verbatim>\<open>csv\<close> reader\<close>

text \<open>
  \<^verbatim>\<open>reader(file, delimiter = ';')\<close> is the state machine of CPython's \<^verbatim>\<open>_csv\<close>
  module (3.11) with the default dialect but for the delimiter: quote character
  \<^verbatim>\<open>"\<close> doubled inside a quoted field, no escape character, white space kept, not
  strict. It is fed the lines the file object yields, one character at a time, and an
  end-of-line mark \<open>EOL\<close> after each line; a row ends when the machine is back in
  \<open>START_RECORD\<close>, so a quoted field may run over several lines. The states that only
  an escape character reaches are left out, since the dialect has none.
\<close>

datatype ParserState =
  START_RECORD | START_FIELD | IN_FIELD | IN_QUOTED_FIELD | QUOTE_IN_QUOTED_FIELD | EAT_CRNL

datatype csv_char = Ch int | EOL

record ReaderObj =
  state :: ParserState
  row_fields :: "pystr list"
  field :: pystr

definition delimiter :: int where
  "delimiter = 59"

definition quotechar :: int where
  "quotechar = 34"

definition field_limit :: int where
  "field_limit = 131072"

definition parse_reset :: ReaderObj where
  "parse_reset = \<lparr>state = START_RECORD, row_fields = [], field = []\<rparr>"

definition parse_save_field :: "ReaderObj \<Rightarrow> ReaderObj" where
  "parse_save_field r = r\<lparr>row_fields := row_fields r @ [field r], field := []\<rparr>"

definition parse_add_char :: "ReaderObj \<Rightarrow> int \<Rightarrow> pyerror + ReaderObj" where
  "parse_add_char r c =
     (if field_limit \<le> int (length (field r)) then Inl CsvError
      else Inr (r\<lparr>field := field r @ [c]\<rparr>))"

definition with_state :: "ParserState \<Rightarrow> pyerror + ReaderObj \<Rightarrow> pyerror + ReaderObj" where
  "with_state st res = (case res of Inl e \<Rightarrow> Inl e | Inr r \<Rightarrow> Inr (r\<lparr>state := st\<rparr>))"

text \<open>The case \<open>START_FIELD\<close> of \<^verbatim>\<open>parse_process_char\<close>, which \<open>START_RECORD\<close> falls through to.\<close>

definition process_START_FIELD :: "ReaderObj \<Rightarrow> csv_char \<Rightarrow> pyerror + ReaderObj" where
  "process_START_FIELD r c =
     (case c of
        EOL \<Rightarrow> Inr ((parse_save_field r)\<lparr>state := START_RECORD\<rparr>)
      | Ch x \<Rightarrow>
          if x = 10 \<or> x = 13 then Inr ((parse_save_field r)\<lparr>state := EAT_CRNL\<rparr>)
          else if x = quotechar then Inr (r\<lparr>state := IN_QUOTED_FIELD\<rparr>)
          else if x = delimiter then Inr (parse_save_field r)
          else with_state IN_FIELD (parse_add_char r x))"

definition parse_process_char :: "ReaderObj \<Rightarrow> csv_char \<Rightarrow> pyerror + ReaderObj" where
  "parse_process_char r c =
     (case state r of
        START_RECORD \<Rightarrow>
          (case c of
             EOL \<Rightarrow> Inr r
           | Ch x \<Rightarrow>
               if x = 10 \<or> x = 13 then Inr (r\<lparr>state := EAT_CRNL\<rparr>)
               else process_START_FIELD (r\<lparr>state := START_FIELD\<rparr>) c)
      | START_FIELD \<Rightarrow> process_START_FIELD r c
      | IN_FIELD \<Rightarrow>
          (case c of
             EOL \<Rightarrow> Inr ((parse_save_field r)\<lparr>state := START_RECORD\<rparr>)
           | Ch x \<Rightarrow>
               if x = 10 \<or> x = 13 then Inr ((parse_save_field r)\<lparr>state := EAT_CRNL\<rparr>)
               else if x = delimiter then Inr ((parse_save_field r)\<lparr>state := START_FIELD\<rparr>)
               else parse_add_char r x)
      | IN_QUOTED_FIELD \<Rightarrow>
          (case c of
             EOL \<Rightarrow> Inr r
           | Ch x \<Rightarrow>
               if x = quotechar then Inr (r\<lparr>state := QUOTE_IN_QUOTED_FIELD\<rparr>)
               else parse_add_char r x)
      | QUOTE_IN_QUOTED_FIELD \<Rightarrow>
          (case c of
             EOL \<Rightarrow> Inr ((parse_save_field r)\<lparr>state := START_RECORD\<rparr>)
           | Ch x \<Rightarrow>
               if x = quotechar then with_state IN_QUOTED_FIELD (parse_add_char r x)
               else if x = delimiter then Inr ((parse_save_field r)\<lparr>state := START_FIELD\<rparr>)
               else if x = 10 \<or> x = 13 then Inr ((parse_save_field r)\<lparr>state := EAT_CRNL\<rparr>)
               else with_state IN_FIELD (parse_add_char r x))
      | EAT_CRNL \<Rightarrow>
          (case c of
             EOL \<Rightarrow> Inr (r\<lparr>state := START_RECORD\<rparr>)
           | Ch x \<Rightarrow> if x = 10 \<or> x = 13 then Inr r else Inl CsvError))"

fun process_chars :: "ReaderObj \<Rightarrow> pystr \<Rightarrow> pyerror + ReaderObj" where
  "process_chars r [] = Inr r"
| "process_chars r (c # cs) =
     (case parse_process_char r (Ch c) of
        Inl e \<Rightarrow> Inl e
      | Inr r' \<Rightarrow> process_chars r' cs)"

definition process_line :: "ReaderObj \<Rightarrow> pystr \<Rightarrow> pyerror + ReaderObj" where
  "process_line r l =
     (case process_chars r l of
        Inl e \<Rightarrow> Inl e
      | Inr r' \<Rightarrow> parse_process_char r' EOL)"

text \<open>
  \<^verbatim>\<open>Reader_iternext\<close>: the next row and the lines left, an error, or \<open>None\<close> when the
  input is exhausted (\<^verbatim>\<open>StopIteration\<close>). At the end of the input inside a quoted field,
  or with a field begun, the row read so far is returned.
\<close>

fun read_record :: "ReaderObj \<Rightarrow> pystr list \<Rightarrow> (pyerror + pystr list \<times> pystr list) option" where
  "read_record r [] =
     (if field r \<noteq> [] \<or> state r = IN_QUOTED_FIELD
      then Some (Inr (row_fields (parse_save_field r), []))
      else None)"
| "read_record r (l # ls) =
     (case process_line r l of
        Inl e \<Rightarrow> Some (Inl e)
      | Inr r' \<Rightarrow>
          if state r' \<noteq> START_RECORD then read_record r' ls
          else Some (Inr (row_fields r', ls)))"

definition Reader_iternext :: "pystr list \<Rightarrow> (pyerror + pystr list \<times> pystr list) option" where
  "Reader_iternext ls = read_record parse_reset ls"

section \<open>The aggregation\<close>

subsection \<open>The four dictionaries\<close>

text \<open>
  \<^verbatim>\<open>minimas\<close>, \<^verbatim>\<open>maximas\<close> and \<^verbatim>\<open>somas\<close> are \<^verbatim>\<open>defaultdict\<close>s that are only looked
  up by key: maps. \<^verbatim>\<open>medicoes\<close> is a \<^verbatim>\<open>Counter\<close> that is iterated afterwards, in
  insertion order: an association list with distinct keys, a new key going to the end.
\<close>

record tables =
  minimas :: "pystr \<rightharpoonup> pyfloat"
  maximas :: "pystr \<rightharpoonup> pyfloat"
  somas :: "pystr \<rightharpoonup> pyfloat"
  medicoes :: "(pystr \<times> int) list"

definition empty_tables :: tables where
  "empty_tables = \<lparr>minimas = Map.empty, maximas = Map.empty, somas = Map.empty, medicoes = []\<rparr>"

text \<open>\<^verbatim>\<open>d[k] = v\<close> on a dictionary kept as an association list.\<close>

fun dict_set :: "('k \<times> 'v) list \<Rightarrow> 'k \<Rightarrow> 'v \<Rightarrow> ('k \<times> 'v) list" where
  "dict_set [] k v = [(k, v)]"
| "dict_set ((k', v') # d) k v = (if k' = k then (k, v) # d else (k', v') # dict_set d k v)"

text \<open>\<^verbatim>\<open>d.get(k, default)\<close>.\<close>

definition dict_get :: "('k \<times> 'v) list \<Rightarrow> 'k \<Rightarrow> 'v \<Rightarrow> 'v" where
  "dict_get d k dflt = (case map_of d k of None \<Rightarrow> dflt | Some v \<Rightarrow> v)"

text \<open>\<^verbatim>\<open>Counter.update([k])\<close>: one more occurrence of \<open>k\<close>.\<close>

definition counter_update :: "(pystr \<times> int) list \<Rightarrow> pystr \<Rightarrow> (pystr \<times> int) list" where
  "counter_update c k = dict_set c k (dict_get c k 0 + 1)"

text \<open>
  \<^verbatim>\<open>d[k]\<close> on a \<^verbatim>\<open>defaultdict\<close>: the value and the dictionary afterwards, which has
  the default stored under a key that was missing.
\<close>

definition defaultdict_getitem :: "('k \<rightharpoonup> 'v) \<Rightarrow> 'v \<Rightarrow> 'k \<Rightarrow> 'v \<times> ('k \<rightharpoonup> 'v)" where
  "defaultdict_getitem d dflt k =
     (case d k of
        Some v \<Rightarrow> (v, d)
      | None \<Rightarrow> (dflt, d(k \<mapsto> dflt)))"

subsection \<open>One row\<close>

text \<open>\<^verbatim>\<open>row[i]\<close> raises \<^verbatim>\<open>IndexError\<close> out of range.\<close>

definition list_index :: "'a list \<Rightarrow> nat \<Rightarrow> pyerror + 'a" where
  "list_index xs i = (if i < length xs then Inr (xs ! i) else Inl IndexError)"

text \<open>Lines 35 and 36: the station name and the temperature of a row.\<close>

definition parse_row :: "pystr list \<Rightarrow> pyerror + pystr \<times> pyfloat" where
  "parse_row row =
     (case list_index row 0 of
        Inl e \<Rightarrow> Inl e
      | Inr nome_da_station \<Rightarrow>
          (case list_index row 1 of
             Inl e \<Rightarrow> Inl e
           | Inr r1 \<Rightarrow>
               (case PyFloat_FromString r1 of
                  Inl e \<Rightarrow> Inl e
                | Inr temperatura \<Rightarrow> Inr (nome_da_station, temperatura))))"

text \<open>Lines 37 to 40: the update of the four dictionaries.\<close>

definition ingest :: "pystr \<Rightarrow> pyfloat \<Rightarrow> tables \<Rightarrow> tables" where
  "ingest nome_da_station temperatura t =
     (let medicoes' = counter_update (medicoes t) nome_da_station;
          (mn, minimas1) = defaultdict_getitem (minimas t) (Infinity False) nome_da_station;
          minimas' = minimas1(nome_da_station \<mapsto> py_min mn temperatura);
          (mx, maximas1) = defaultdict_getitem (maximas t) (Infinity True) nome_da_station;
          maximas' = maximas1(nome_da_station \<mapsto> py_max mx temperatura);
          (sm, somas1) = defaultdict_getitem (somas t) (Finite False 0 0) nome_da_station;
          somas' = somas1(nome_da_station \<mapsto> float_add sm temperatura)
      in \<lparr>minimas = minimas', maximas = maximas', somas = somas', medicoes = medicoes'\<rparr>)"

subsection \<open>The loop over the rows\<close>

lemma read_record_shorter:
  "read_record r ls = Some (Inr (row, rest)) \<Longrightarrow> length rest < Suc (length ls)"
proof (induction ls arbitrary: r)
  case Nil
  then show ?case by (simp split: if_splits)
next
  case (Cons l ls)
  then show ?case
    by (fastforce split: sum.splits if_splits)
qed

lemma Reader_iternext_shorter:
  "Reader_iternext ls = Some (Inr (row, rest)) \<Longrightarrow> length rest < length ls"
proof (cases ls)
  case Nil
  assume "Reader_iternext ls = Some (Inr (row, rest))"
  with Nil show ?thesis by (simp add: Reader_iternext_def parse_reset_def)
next
  case (Cons l ls')
  assume a: "Reader_iternext ls = Some (Inr (row, rest))"
  show ?thesis
  proof (cases "process_line parse_reset l")
    case (Inl e)
    with a Cons show ?thesis by (simp add: Reader_iternext_def)
  next
    case (Inr r')
    show ?thesis
    proof (cases "state r' = START_RECORD")
      case True
      with a Cons Inr show ?thesis by (simp add: Reader_iternext_def)
    next
      case False
      with a Cons Inr have "read_record r' ls' = Some (Inr (row, rest))"
        by (simp add: Reader_iternext_def)
      from read_record_shorter [OF this] Cons show ?thesis by simp
    qed
  qed
qed

text \<open>
  Lines 34 to 40: the loop takes rows from the reader until the input is exhausted. An
  exception (of the reader, of \<^verbatim>\<open>row[0]\<close>, \<^verbatim>\<open>row[1]\<close> or \<^verbatim>\<open>float\<close>) ends it; the
  result is then the exception with the dictionaries as they stand when it is raised.
\<close>

function ingest_rows :: "pystr list \<Rightarrow> tables \<Rightarrow> pyerror \<times> tables + tables" where
  "ingest_rows ls t =
     (case Reader_iternext ls of
        None \<Rightarrow> Inr t
      | Some (Inl e) \<Rightarrow> Inl (e, t)
      | Some (Inr (row, rest)) \<Rightarrow>
          (case parse_row row of
             Inl e \<Rightarrow> Inl (e, t)
           | Inr (nome_da_station, temperatura) \<Rightarrow>
               ingest_rows rest (ingest nome_da_station temperatura t)))"
  by pat_completeness auto
termination
  by (relation "measure (\<lambda>(ls, t). length ls)") (auto dest: Reader_iternext_shorter)

declare ingest_rows.simps [simp del]

subsection \<open>Statistics, order and format\<close>

text \<open>
  Lines 45 to 48: \<^verbatim>\<open>results\<close>, in the order of \<^verbatim>\<open>medicoes.items()\<close>. The lookups in
  the \<^verbatim>\<open>defaultdict\<close>s find their keys, since every key of \<^verbatim>\<open>medicoes\<close> was given a
  minimum, a maximum and a sum by the loop.
\<close>

fun calc_results ::
  "tables \<Rightarrow> (pystr \<times> int) list \<Rightarrow> (pystr \<times> pyfloat \<times> pyfloat \<times> pyfloat) list
   \<Rightarrow> pyerror + (pystr \<times> pyfloat \<times> pyfloat \<times> pyfloat) list" where
  "calc_results t [] results = Inr results"
| "calc_results t ((station, qtd_medicoes) # items) results =
     (case float_div (fst (defaultdict_getitem (somas t) (Finite False 0 0) station)) qtd_medicoes of
        Inl e \<Rightarrow> Inl e
      | Inr mean_temp \<Rightarrow>
          calc_results t items
            (dict_set results station
               (fst (defaultdict_getitem (minimas t) (Infinity False) station),
                mean_temp,
                fst (defaultdict_getitem (maximas t) (Infinity True) station))))"

definition snapshot :: "tables \<Rightarrow> pyerror + (pystr \<times> pyfloat \<times> pyfloat \<times> pyfloat) list" where
  "snapshot t = calc_results t (medicoes t) []"

text \<open>
  Line 52: \<^verbatim>\<open>dict(sorted(results.items()))\<close>. The items are pairs of a key and a triple;
  their keys are distinct, so the order of two items is the order of their keys, which
  for \<^verbatim>\<open>str\<close> is the lexicographic order of the code points. \<open>dict_of_items\<close> is
  \<^verbatim>\<open>dict\<close> of a list of pairs.
\<close>

definition dict_of_items :: "('k \<times> 'v) list \<Rightarrow> ('k \<times> 'v) list" where
  "dict_of_items items = foldl (\<lambda>d (k, v). dict_set d k v) [] items"

definition sorted_results ::
  "(pystr \<times> pyfloat \<times> pyfloat \<times> pyfloat) list \<Rightarrow> (pystr \<times> pyfloat \<times> pyfloat \<times> pyfloat) list" where
  "sorted_results results = dict_of_items (sort_key fst results)"

text \<open>Lines 55 and 56: the three numbers with one decimal, joined by \<^verbatim>\<open>/\<close> (code point 47).\<close>

definition format_entry :: "pystr \<times> pyfloat \<times> pyfloat \<times> pyfloat \<Rightarrow> pystr \<times> pystr" where
  "format_entry item =
     (case item of
        (station, min_temp, mean_temp, max_temp) \<Rightarrow>
          (station, format_1f min_temp @ [47] @ format_1f mean_temp @ [47] @ format_1f max_temp))"

definition formatted_results ::
  "(pystr \<times> pyfloat \<times> pyfloat \<times> pyfloat) list \<Rightarrow> (pystr \<times> pystr) list" where
  "formatted_results results = dict_of_items (map format_entry (sorted_results results))"

text \<open>
  The function, from the lines of the file to the returned dictionary (an association
  list in the dictionary's order) or the exception that leaves it.
\<close>

definition processar_temperaturas :: "pystr list \<Rightarrow> pyerror + (pystr \<times> pystr) list" where
  "processar_temperaturas ls =
     (case ingest_rows ls empty_tables of
        Inl (e, t) \<Rightarrow> Inl e
      | Inr t \<Rightarrow>
          (case snapshot t of
             Inl e \<Rightarrow> Inl e
           | Inr results \<Rightarrow> Inr (formatted_results results)))"

text \<open>\<^verbatim>\<open>main\<close> prints one line \<^verbatim>\<open>station: metrics\<close> for every item of the dictionary.\<close>

definition output_lines :: "(pystr \<times> pystr) list \<Rightarrow> pystr list" where
  "output_lines resultados = map (\<lambda>(station, metrics). station @ str '': '' @ metrics) resultados"

section \<open>Notions of the properties\<close>

text \<open>
  The definitions that the properties below are stated and proved with: none of them is
  part of the program but \<open>parse_line\<close>, which composes the reader and lines 35 and 36.
\<close>

subsection \<open>Scenario 1 of the spec\<close>

definition scenario_1 :: "pystr list" where
  "scenario_1 = [str ''A;10.0'' @ [10], str ''A;20.0'' @ [10], str ''B;-5.5'' @ [10]]"

subsection \<open>The order of the floats\<close>

text \<open>
  For the proofs, every float that is not a NaN has a place in a linear order: the
  negative infinity, the finite floats by their real value, the positive infinity. The
  comparisons of the program are the comparisons of these places.
\<close>

definition fval :: "bool \<Rightarrow> int \<Rightarrow> int \<Rightarrow> real" where
  "fval s m e = real_of_int (signed s m) * 2 powi e"

definition fkey :: "pyfloat \<Rightarrow> int \<times> real" where
  "fkey x = (case x of
      Infinity s \<Rightarrow> (if s then (0, 0) else (2, 0))
    | Finite s m e \<Rightarrow> (1, fval s m e)
    | NaN \<Rightarrow> (3, 0))"

subsection \<open>A sequence of updates\<close>

text \<open>
  \<open>ingest_all recs t\<close> is the table after the updates for the records \<open>recs\<close>, in
  their order, from the table \<open>t\<close>; \<open>values_of k recs\<close> are the values of the records
  with key \<open>k\<close>, in their order; \<open>dd_value\<close> is the value a \<^verbatim>\<open>defaultdict\<close> gives.
\<close>

definition ingest_all :: "(pystr \<times> pyfloat) list \<Rightarrow> tables \<Rightarrow> tables" where
  "ingest_all recs t = foldl (\<lambda>t (k, v). ingest k v t) t recs"

definition values_of :: "pystr \<Rightarrow> (pystr \<times> pyfloat) list \<Rightarrow> pyfloat list" where
  "values_of k recs = map snd (filter (\<lambda>(k', v). k' = k) recs)"

definition dd_value :: "('k \<rightharpoonup> 'v) \<Rightarrow> 'v \<Rightarrow> 'k \<Rightarrow> 'v" where
  "dd_value d dflt k = (case d k of None \<Rightarrow> dflt | Some v \<Rightarrow> v)"

subsection \<open>The state of a key and the merge of two states\<close>

text \<open>
  The program keeps the state of a key in four dictionaries; \<open>state_of t k\<close> is the
  spec's AggregateState of \<open>k\<close>, present when \<open>k\<close> has a count, and
  \<open>built_state k vs\<close> the state of \<open>k\<close> after ingesting the values \<open>vs\<close> under it,
  in their order, from the empty tables.
\<close>

record AggregateState =
  agg_count :: int
  agg_min :: pyfloat
  agg_max :: pyfloat
  agg_sum :: pyfloat

definition state_of :: "tables \<Rightarrow> pystr \<Rightarrow> AggregateState option" where
  "state_of t k =
     (case map_of (medicoes t) k of
        None \<Rightarrow> None
      | Some c \<Rightarrow>
          Some \<lparr>agg_count = c,
                agg_min = dd_value (minimas t) (Infinity False) k,
                agg_max = dd_value (maximas t) (Infinity True) k,
                agg_sum = dd_value (somas t) (Finite False 0 0) k\<rparr>)"

definition built_state :: "pystr \<Rightarrow> pyfloat list \<Rightarrow> AggregateState option" where
  "built_state k vs = state_of (ingest_all (map (Pair k) vs) empty_tables) k"

text \<open>
  Modelled from the spec: the merge of two AggregateStates of one key. The program has
  no such operation (it builds one table, in one loop); the spec gives it as pairwise
  min, pairwise max, summed sum and summed count, taken here with the program's own
  \<^verbatim>\<open>min\<close>, \<^verbatim>\<open>max\<close> and float addition.
\<close>

definition merge_states :: "AggregateState \<Rightarrow> AggregateState \<Rightarrow> AggregateState" where
  "merge_states a b =
     \<lparr>agg_count = agg_count a + agg_count b,
      agg_min = py_min (agg_min a) (agg_min b),
      agg_max = py_max (agg_max a) (agg_max b),
      agg_sum = float_add (agg_sum a) (agg_sum b)\<rparr>"

subsection \<open>One line\<close>

text \<open>
  What lines 34 to 36 make of a line at which a row starts: \<open>Record\<close> with the
  station and the temperature; \<open>ParseError\<close> with the exception that the reader,
  \<^verbatim>\<open>row[0]\<close>, \<^verbatim>\<open>row[1]\<close> or \<^verbatim>\<open>float\<close> raises; or \<open>Continues\<close> when the line ends
  inside a quoted field, so that the row goes on with the next line. \<open>records_of ls\<close>
  are the records of the lines \<open>ls\<close> that give one.
\<close>

datatype line_result = Record pystr pyfloat | ParseError pyerror | Continues

definition parse_line :: "pystr \<Rightarrow> line_result" where
  "parse_line l =
     (case process_line parse_reset l of
        Inl e \<Rightarrow> ParseError e
      | Inr r \<Rightarrow>
          if state r \<noteq> START_RECORD then Continues
          else
            (case parse_row (row_fields r) of
               Inl e \<Rightarrow> ParseError e
             | Inr (nome_da_station, temperatura) \<Rightarrow> Record nome_da_station temperatura))"

definition records_of :: "pystr list \<Rightarrow> (pystr \<times> pyfloat) list" where
  "records_of ls =
     concat (map (\<lambda>l. case parse_line l of Record k v \<Rightarrow> [(k, v)] | _ \<Rightarrow> []) ls)"

subsection \<open>Lines without quotes\<close>

text \<open>
  On a line without a quote character the reader does what splitting the text at every
  delimiter does. \<open>split_fields [] body\<close> is that split; \<open>key_field body\<close> is the text
  before the first delimiter and \<open>value_field body\<close> the text between the first
  delimiter and the second, or the end of the text; \<open>unquoted body\<close> says that \<open>body\<close>
  has no quote character and no line terminator inside.
\<close>

fun split_fields :: "pystr \<Rightarrow> pystr \<Rightarrow> pystr list" where
  "split_fields cur [] = [cur]"
| "split_fields cur (c # cs) =
     (if c = delimiter then cur # split_fields [] cs else split_fields (cur @ [c]) cs)"

definition key_field :: "pystr \<Rightarrow> pystr" where
  "key_field body = takeWhile (\<lambda>c. c \<noteq> delimiter) body"

definition value_field :: "pystr \<Rightarrow> pystr" where
  "value_field body =
     takeWhile (\<lambda>c. c \<noteq> delimiter) (drop 1 (dropWhile (\<lambda>c. c \<noteq> delimiter) body))"

definition unquoted :: "pystr \<Rightarrow> bool" where
  "unquoted body = list_all (\<lambda>c. c \<noteq> quotechar \<and> c \<noteq> 10 \<and> c \<noteq> 13) body"

definition in_field :: "ReaderObj \<Rightarrow> bool" where
  "in_field r = (state r = IN_FIELD \<or> (state r = START_FIELD \<and> field r = []))"

text \<open>
  The lines that the file object yields end with a line feed, but for the last one when
  the file does not end with one; the file is opened with universal newlines, so they hold
  no other line feed and no carriage return. \<open>line_body l\<close> is the line \<open>l\<close> without
  its final line feed. \<open>plain_line l\<close> says that this body has no quote character and no
  line terminator, and no more characters than the reader takes in one field.
  \<open>accepted_line l\<close> says moreover that the body has a delimiter and that \<^verbatim>\<open>float\<close>
  accepts its value field.
\<close>

definition line_body :: "pystr \<Rightarrow> pystr" where
  "line_body l = (if l \<noteq> [] \<and> last l = 10 then butlast l else l)"

definition plain_line :: "pystr \<Rightarrow> bool" where
  "plain_line l = (unquoted (line_body l) \<and> int (length (line_body l)) \<le> field_limit)"

definition accepted_line :: "pystr \<Rightarrow> bool" where
  "accepted_line l =
     (plain_line l \<and> delimiter \<in> set (line_body l) \<and>
      (case PyFloat_FromString (value_field (line_body l)) of Inl e \<Rightarrow> False | Inr x \<Rightarrow> True))"

subsection \<open>UTF-8\<close>

text \<open>
  The file is decoded from UTF-8 when it is read, and \<^verbatim>\<open>sorted\<close> compares the keys as
  \<^verbatim>\<open>str\<close>, code point by code point. The spec states the order on the bytes of the
  UTF-8 encodings: \<open>utf8 s\<close> is the encoding of the string \<open>s\<close> (one to four bytes
  for a code point, six bits to a continuation byte, \<open>div 64\<close> being a shift by six
  bits), and \<open>code_point c\<close> says that \<open>c\<close> is a Unicode code point, as every
  character of a Python string is. \<open>diverges xs ys\<close> says that two byte strings
  differ first at a position where \<open>xs\<close> has the smaller byte.
\<close>

definition utf8_char :: "int \<Rightarrow> int list" where
  "utf8_char c =
     (if c < 128 then [c]
      else if c < 2048 then [192 + c div 64, 128 + c mod 64]
      else if c < 65536 then [224 + c div 64 div 64, 128 + c div 64 mod 64, 128 + c mod 64]
      else [240 + c div 64 div 64 div 64, 128 + c div 64 div 64 mod 64,
            128 + c div 64 mod 64, 128 + c mod 64])"

definition utf8 :: "pystr \<Rightarrow> int list" where
  "utf8 s = concat (map utf8_char s)"

definition code_point :: "int \<Rightarrow> bool" where
  "code_point c = (0 \<le> c \<and> c < 1114112)"

definition diverges :: "int list \<Rightarrow> int list \<Rightarrow> bool" where
  "diverges xs ys = (\<exists>p x y r1 r2. xs = p @ x # r1 \<and> ys = p @ y # r2 \<and> x < y)"

subsection \<open>The characters of the reader\<close>

text \<open>The characters of the keys are characters of the lines read.\<close>

definition chars_of :: "ReaderObj \<Rightarrow> int set" where
  "chars_of r = set (field r) \<union> \<Union> (set ` set (row_fields r))"

section \<open>Properties\<close>

subsection \<open>Dictionaries\<close>

lemma map_of_dict_set: "map_of (dict_set d k v) = (map_of d)(k \<mapsto> v)"
  by (induction d) (auto simp: fun_eq_iff)

lemma map_fst_dict_set:
  "map fst (dict_set d k v) = (if k \<in> fst ` set d then map fst d else map fst d @ [k])"
  by (induction d) (auto simp: image_iff, force)

lemma ingest_rows_step:
  "Reader_iternext ls = Some (Inr (row, rest)) \<Longrightarrow> parse_row row = Inr (k, v) \<Longrightarrow>
   ingest_rows ls t = ingest_rows rest (ingest k v t)"
  by (subst ingest_rows.simps) simp

lemma ingest_rows_end: "Reader_iternext ls = None \<Longrightarrow> ingest_rows ls t = Inr t"
  by (subst ingest_rows.simps) simp

lemma str_A_B: "str ''A'' \<noteq> str ''B''" "str ''B'' \<noteq> str ''A''"
  by (simp_all add: str_def)

subsection \<open>Scenario 1\<close>

lemma scenario_1_rows:
  "Reader_iternext [str ''A;10.0'' @ [10], str ''A;20.0'' @ [10], str ''B;-5.5'' @ [10]] =
     Some (Inr ([str ''A'', str ''10.0''], [str ''A;20.0'' @ [10], str ''B;-5.5'' @ [10]]))"
  "Reader_iternext [str ''A;20.0'' @ [10], str ''B;-5.5'' @ [10]] =
     Some (Inr ([str ''A'', str ''20.0''], [str ''B;-5.5'' @ [10]]))"
  "Reader_iternext [str ''B;-5.5'' @ [10]] = Some (Inr ([str ''B'', str ''-5.5''], []))"
  "Reader_iternext [] = None"
  by code_simp+

lemma scenario_1_records:
  "parse_row [str ''A'', str ''10.0''] = Inr (str ''A'', Finite False 5 1)"
  "parse_row [str ''A'', str ''20.0''] = Inr (str ''A'', Finite False 5 2)"
  "parse_row [str ''B'', str ''-5.5''] = Inr (str ''B'', Finite True 11 (- 1))"
  by code_simp+

lemma scenario_1_floats:
  "py_min (Infinity False) (Finite False 5 1) = Finite False 5 1"
  "py_min (Finite False 5 1) (Finite False 5 2) = Finite False 5 1"
  "py_max (Infinity True) (Finite False 5 1) = Finite False 5 1"
  "py_max (Finite False 5 1) (Finite False 5 2) = Finite False 5 2"
  "float_add (Finite False 0 0) (Finite False 5 1) = Finite False 5 1"
  "float_add (Finite False 5 1) (Finite False 5 2) = Finite False 15 1"
  "py_min (Infinity False) (Finite True 11 (- 1)) = Finite True 11 (- 1)"
  "py_max (Infinity True) (Finite True 11 (- 1)) = Finite True 11 (- 1)"
  "float_add (Finite False 0 0) (Finite True 11 (- 1)) = Finite True 11 (- 1)"
  by code_simp+

lemma scenario_1_tables:
  "ingest_rows scenario_1 empty_tables =
     Inr \<lparr>minimas = [str ''A'' \<mapsto> Finite False 5 1, str ''B'' \<mapsto> Finite True 11 (- 1)],
          maximas = [str ''A'' \<mapsto> Finite False 5 2, str ''B'' \<mapsto> Finite True 11 (- 1)],
          somas = [str ''A'' \<mapsto> Finite False 15 1, str ''B'' \<mapsto> Finite True 11 (- 1)],
          medicoes = [(str ''A'', 2), (str ''B'', 1)]\<rparr>"
  unfolding scenario_1_def
  apply (simp only: ingest_rows_step [OF scenario_1_rows(1) scenario_1_records(1)]
      ingest_rows_step [OF scenario_1_rows(2) scenario_1_records(2)]
      ingest_rows_step [OF scenario_1_rows(3) scenario_1_records(3)]
      ingest_rows_end [OF scenario_1_rows(4)])
  apply (simp add: ingest_def empty_tables_def counter_update_def dict_get_def
      defaultdict_getitem_def scenario_1_floats str_A_B del: float_add.simps)
  done

lemma scenario_1_output:
  "processar_temperaturas scenario_1 =
     Inr [(str ''A'', str ''10.0/15.0/20.0''), (str ''B'', str ''-5.5/-5.5/-5.5'')]"
  "output_lines [(str ''A'', str ''10.0/15.0/20.0''), (str ''B'', str ''-5.5/-5.5/-5.5'')] =
     [str ''A: 10.0/15.0/20.0'', str ''B: -5.5/-5.5/-5.5'']"
  by code_simp+

text \<open>
  C1. The lines \<^verbatim>\<open>A;10.0\<close>, \<^verbatim>\<open>A;20.0\<close>, \<^verbatim>\<open>B;-5.5\<close> (each with its line feed, as the
  file yields them) leave the dictionaries with exactly the keys \<^verbatim>\<open>A\<close> and \<^verbatim>\<open>B\<close>:
  for \<^verbatim>\<open>A\<close> the count 2, the minimum 10.0 (\<open>5 * 2^1\<close>), the maximum 20.0
  (\<open>5 * 2^2\<close>) and the sum 30.0 (\<open>15 * 2^1\<close>); for \<^verbatim>\<open>B\<close> the count 1 and the minimum,
  maximum and sum -5.5 (\<open>-11 * 2^(-1)\<close>). The function returns \<^verbatim>\<open>10.0/15.0/20.0\<close>
  for \<^verbatim>\<open>A\<close> and \<^verbatim>\<open>-5.5/-5.5/-5.5\<close> for \<^verbatim>\<open>B\<close>, in that order, which \<^verbatim>\<open>main\<close>
  prints as \<^verbatim>\<open>A: 10.0/15.0/20.0\<close> and \<^verbatim>\<open>B: -5.5/-5.5/-5.5\<close>.
\<close>

theorem scenario_1_aggregates_and_output:
  "ingest_rows scenario_1 empty_tables =
     Inr \<lparr>minimas = [str ''A'' \<mapsto> Finite False 5 1, str ''B'' \<mapsto> Finite True 11 (- 1)],
          maximas = [str ''A'' \<mapsto> Finite False 5 2, str ''B'' \<mapsto> Finite True 11 (- 1)],
          somas = [str ''A'' \<mapsto> Finite False 15 1, str ''B'' \<mapsto> Finite True 11 (- 1)],
          medicoes = [(str ''A'', 2), (str ''B'', 1)]\<rparr>
   \<and> processar_temperaturas scenario_1 =
       Inr [(str ''A'', str ''10.0/15.0/20.0''), (str ''B'', str ''-5.5/-5.5/-5.5'')]
   \<and> map_sum id output_lines (processar_temperaturas scenario_1) =
       Inr [str ''A: 10.0/15.0/20.0'', str ''B: -5.5/-5.5/-5.5'']"
  by (simp add: scenario_1_tables scenario_1_output)

subsection \<open>The frame of one update\<close>

text \<open>
  C10. The update for a record with key \<open>k\<close> leaves the count, the minimum, the maximum
  and the sum of every other key \<open>k'\<close> as they were (also absent, when they were absent).
\<close>

theorem ingest_frame:
  "k' \<noteq> k \<Longrightarrow>
   map_of (medicoes (ingest k v t)) k' = map_of (medicoes t) k' \<and>
   minimas (ingest k v t) k' = minimas t k' \<and>
   maximas (ingest k v t) k' = maximas t k' \<and>
   somas (ingest k v t) k' = somas t k'"
  by (simp add: ingest_def counter_update_def map_of_dict_set defaultdict_getitem_def
      split: option.split prod.split)

theorem ingest_frame_witness:
  "str ''B'' \<noteq> str ''A'' \<and>
   map_of (medicoes (ingest (str ''A'') (Finite False 5 1) (ingest (str ''B'') (Finite False 5 2) empty_tables))) (str ''B'') = Some 1 \<and>
   minimas (ingest (str ''A'') (Finite False 5 1) (ingest (str ''B'') (Finite False 5 2) empty_tables)) (str ''B'') = Some (Finite False 5 2) \<and>
   maximas (ingest (str ''A'') (Finite False 5 1) (ingest (str ''B'') (Finite False 5 2) empty_tables)) (str ''B'') = Some (Finite False 5 2) \<and>
   somas (ingest (str ''A'') (Finite False 5 1) (ingest (str ''B'') (Finite False 5 2) empty_tables)) (str ''B'') = Some (Finite False 5 2)"
proof -
  have ne: "str ''B'' \<noteq> str ''A''"
    by (rule str_A_B)
  have b: "map_of (medicoes (ingest (str ''B'') (Finite False 5 2) empty_tables)) (str ''B'') = Some 1"
    "minimas (ingest (str ''B'') (Finite False 5 2) empty_tables) (str ''B'') = Some (Finite False 5 2)"
    "maximas (ingest (str ''B'') (Finite False 5 2) empty_tables) (str ''B'') = Some (Finite False 5 2)"
    "somas (ingest (str ''B'') (Finite False 5 2) empty_tables) (str ''B'') = Some (Finite False 5 2)"
    by code_simp+
  from ingest_frame [OF ne, of "Finite False 5 1" "ingest (str ''B'') (Finite False 5 2) empty_tables"] ne b
  show ?thesis by simp
qed

subsection \<open>The order of the floats\<close>

lemma pow_nat_diff_powi:
  assumes "t \<le> e"
  shows "real_of_int (a * 2 ^ nat (e - t)) * 2 powi t = real_of_int a * 2 powi e"
proof -
  have "(2::real) ^ nat (e - t) = 2 powi (e - t)"
    using assms by (simp add: power_int_def)
  moreover have "(2::real) powi (e - t) * 2 powi t = 2 powi (e - t + t)"
    using power_int_add [of "2::real" "e - t" t] by simp
  ultimately have "(2::real) ^ nat (e - t) * 2 powi t = 2 powi e"
    by simp
  then show ?thesis by (simp add: mult.assoc)
qed

lemma scaled_less_iff:
  fixes a b :: int
  shows "a * 2 ^ nat (e - min e e') < b * 2 ^ nat (e' - min e e')
     \<longleftrightarrow> real_of_int a * 2 powi e < real_of_int b * 2 powi e'"
proof -
  define t where "t = min e e'"
  have t: "t \<le> e" "t \<le> e'" by (simp_all add: t_def)
  have pos: "(0::real) < 2 powi t" by simp
  have "a * 2 ^ nat (e - t) < b * 2 ^ nat (e' - t)
     \<longleftrightarrow> real_of_int (a * 2 ^ nat (e - t)) < real_of_int (b * 2 ^ nat (e' - t))"
    by (simp only: of_int_less_iff)
  also have "\<dots> \<longleftrightarrow> real_of_int (a * 2 ^ nat (e - t)) * 2 powi t < real_of_int (b * 2 ^ nat (e' - t)) * 2 powi t"
    using pos by (simp only: mult_less_cancel_right_pos)
  also have "\<dots> \<longleftrightarrow> real_of_int a * 2 powi e < real_of_int b * 2 powi e'"
    by (simp only: pow_nat_diff_powi [OF t(1)] pow_nat_diff_powi [OF t(2)])
  finally show ?thesis by (simp only: t_def)
qed

lemma scaled_eq_iff:
  fixes a b :: int
  shows "a * 2 ^ nat (e - min e e') = b * 2 ^ nat (e' - min e e')
     \<longleftrightarrow> real_of_int a * 2 powi e = real_of_int b * 2 powi e'"
proof -
  define t where "t = min e e'"
  have t: "t \<le> e" "t \<le> e'" by (simp_all add: t_def)
  have pos: "(2::real) powi t \<noteq> 0" by simp
  have "a * 2 ^ nat (e - t) = b * 2 ^ nat (e' - t)
     \<longleftrightarrow> real_of_int (a * 2 ^ nat (e - t)) = real_of_int (b * 2 ^ nat (e' - t))"
    by (simp only: of_int_eq_iff)
  also have "\<dots> \<longleftrightarrow> real_of_int (a * 2 ^ nat (e - t)) * 2 powi t = real_of_int (b * 2 ^ nat (e' - t)) * 2 powi t"
    using pos by (simp only: mult_cancel_right) simp
  also have "\<dots> \<longleftrightarrow> real_of_int a * 2 powi e = real_of_int b * 2 powi e'"
    by (simp only: pow_nat_diff_powi [OF t(1)] pow_nat_diff_powi [OF t(2)])
  finally show ?thesis by (simp only: t_def)
qed

lemma float_lt_fkey: "float_lt a b \<longleftrightarrow> a \<noteq> NaN \<and> b \<noteq> NaN \<and> fkey a < fkey b"
  by (cases a; cases b) (auto simp: fkey_def fval_def scaled_less_iff Let_def)

lemma float_eq_fkey: "float_eq a b \<longleftrightarrow> a \<noteq> NaN \<and> b \<noteq> NaN \<and> fkey a = fkey b"
  by (cases a; cases b) (auto simp: fkey_def fval_def scaled_eq_iff Let_def)

lemma float_le_fkey: "float_le a b \<longleftrightarrow> a \<noteq> NaN \<and> b \<noteq> NaN \<and> fkey a \<le> fkey b"
  by (auto simp: float_le_def float_lt_fkey float_eq_fkey)

lemma fkey_top: "x \<noteq> NaN \<Longrightarrow> fkey x \<le> fkey (Infinity False)"
  by (cases x) (auto simp: fkey_def)

lemma fkey_bot: "fkey (Infinity True) \<le> fkey x"
  by (cases x) (auto simp: fkey_def)

lemma fkey_eq_top: "fkey x = fkey (Infinity False) \<longleftrightarrow> x = Infinity False"
  by (cases x) (auto simp: fkey_def)

lemma fkey_eq_bot: "fkey x = fkey (Infinity True) \<longleftrightarrow> x = Infinity True"
  by (cases x) (auto simp: fkey_def)

lemma py_min_fkey:
  "a \<noteq> NaN \<Longrightarrow> py_min a b \<noteq> NaN \<and> (py_min a b = a \<or> py_min a b = b) \<and>
     fkey (py_min a b) = (if b = NaN then fkey a else min (fkey a) (fkey b))"
  by (auto simp: py_min_def float_lt_fkey min_def)

lemma py_max_fkey:
  "a \<noteq> NaN \<Longrightarrow> py_max a b \<noteq> NaN \<and> (py_max a b = a \<or> py_max a b = b) \<and>
     fkey (py_max a b) = (if b = NaN then fkey a else max (fkey a) (fkey b))"
  by (auto simp: py_max_def float_lt_fkey max_def)

subsection \<open>A sequence of updates, key by key\<close>

lemma fst_defaultdict_getitem: "fst (defaultdict_getitem d dflt k) = dd_value d dflt k"
  by (simp add: defaultdict_getitem_def dd_value_def split: option.split)

lemma ingest_same_key:
  "minimas (ingest k v t) k = Some (py_min (dd_value (minimas t) (Infinity False) k) v)"
  "maximas (ingest k v t) k = Some (py_max (dd_value (maximas t) (Infinity True) k) v)"
  "somas (ingest k v t) k = Some (float_add (dd_value (somas t) (Finite False 0 0) k) v)"
  "map_of (medicoes (ingest k v t)) k = Some (dict_get (medicoes t) k 0 + 1)"
  by (simp_all add: ingest_def counter_update_def map_of_dict_set defaultdict_getitem_def
      dd_value_def split: option.split prod.split)

lemma ingest_other_key:
  "k' \<noteq> k \<Longrightarrow> minimas (ingest k v t) k' = minimas t k'"
  "k' \<noteq> k \<Longrightarrow> maximas (ingest k v t) k' = maximas t k'"
  "k' \<noteq> k \<Longrightarrow> somas (ingest k v t) k' = somas t k'"
  "k' \<noteq> k \<Longrightarrow> map_of (medicoes (ingest k v t)) k' = map_of (medicoes t) k'"
  by (simp_all add: ingest_def counter_update_def map_of_dict_set defaultdict_getitem_def
      split: option.split prod.split)

lemma ingest_all_Nil [simp]: "ingest_all [] t = t"
  by (simp add: ingest_all_def)

lemma ingest_all_Cons [simp]: "ingest_all ((k, v) # recs) t = ingest_all recs (ingest k v t)"
  by (simp add: ingest_all_def)

lemma ingest_all_append: "ingest_all (xs @ ys) t = ingest_all ys (ingest_all xs t)"
  by (simp add: ingest_all_def)

lemma values_of_Nil [simp]: "values_of k [] = []"
  by (simp add: values_of_def)

lemma values_of_Cons [simp]:
  "values_of k ((k', v) # recs) = (if k' = k then v # values_of k recs else values_of k recs)"
  by (simp add: values_of_def)

lemma minimas_ingest_all:
  "minimas (ingest_all recs t) k =
     (if values_of k recs = [] then minimas t k
      else Some (foldl py_min (dd_value (minimas t) (Infinity False) k) (values_of k recs)))"
proof (induction recs arbitrary: t)
  case Nil
  show ?case by simp
next
  case (Cons r recs)
  obtain k' v where r: "r = (k', v)" by (cases r)
  show ?case
    by (cases "k' = k") (simp_all add: r Cons ingest_same_key ingest_other_key dd_value_def)
qed

lemma maximas_ingest_all:
  "maximas (ingest_all recs t) k =
     (if values_of k recs = [] then maximas t k
      else Some (foldl py_max (dd_value (maximas t) (Infinity True) k) (values_of k recs)))"
proof (induction recs arbitrary: t)
  case Nil
  show ?case by simp
next
  case (Cons r recs)
  obtain k' v where r: "r = (k', v)" by (cases r)
  show ?case
    by (cases "k' = k") (simp_all add: r Cons ingest_same_key ingest_other_key dd_value_def)
qed

lemma somas_ingest_all:
  "somas (ingest_all recs t) k =
     (if values_of k recs = [] then somas t k
      else Some (foldl float_add (dd_value (somas t) (Finite False 0 0) k) (values_of k recs)))"
proof (induction recs arbitrary: t)
  case Nil
  show ?case by simp
next
  case (Cons r recs)
  obtain k' v where r: "r = (k', v)" by (cases r)
  show ?case
    by (cases "k' = k") (simp_all add: r Cons ingest_same_key ingest_other_key dd_value_def)
qed

lemma medicoes_ingest_all:
  "map_of (medicoes (ingest_all recs t)) k =
     (if values_of k recs = [] then map_of (medicoes t) k
      else Some (dict_get (medicoes t) k 0 + int (length (values_of k recs))))"
proof (induction recs arbitrary: t)
  case Nil
  show ?case by simp
next
  case (Cons r recs)
  obtain k' v where r: "r = (k', v)" by (cases r)
  show ?case
    by (cases "k' = k") (simp_all add: r Cons ingest_same_key ingest_other_key dict_get_def)
qed

lemma foldl_py_min_least:
  "a \<noteq> NaN \<Longrightarrow>
   foldl py_min a vs \<noteq> NaN \<and> (foldl py_min a vs = a \<or> foldl py_min a vs \<in> set vs) \<and>
   fkey (foldl py_min a vs) \<le> fkey a \<and>
   (\<forall>v\<in>set vs. v \<noteq> NaN \<longrightarrow> fkey (foldl py_min a vs) \<le> fkey v)"
proof (induction vs arbitrary: a)
  case Nil
  then show ?case by simp
next
  case (Cons v vs)
  from py_min_fkey [OF Cons.prems, of v]
  have m: "py_min a v \<noteq> NaN" "py_min a v = a \<or> py_min a v = v"
    "fkey (py_min a v) = (if v = NaN then fkey a else min (fkey a) (fkey v))"
    by simp_all
  from Cons.IH [OF m(1)] m(2,3) show ?case
    by (auto simp: min_def split: if_splits)
qed

lemma foldl_py_max_greatest:
  "a \<noteq> NaN \<Longrightarrow>
   foldl py_max a vs \<noteq> NaN \<and> (foldl py_max a vs = a \<or> foldl py_max a vs \<in> set vs) \<and>
   fkey a \<le> fkey (foldl py_max a vs) \<and>
   (\<forall>v\<in>set vs. v \<noteq> NaN \<longrightarrow> fkey v \<le> fkey (foldl py_max a vs))"
proof (induction vs arbitrary: a)
  case Nil
  then show ?case by simp
next
  case (Cons v vs)
  from py_max_fkey [OF Cons.prems, of v]
  have m: "py_max a v \<noteq> NaN" "py_max a v = a \<or> py_max a v = v"
    "fkey (py_max a v) = (if v = NaN then fkey a else max (fkey a) (fkey v))"
    by simp_all
  from Cons.IH [OF m(1)] m(2,3) show ?case
    by (auto simp: max_def split: if_splits)
qed

lemma dict_get_Nil [simp]: "dict_get [] k dflt = dflt"
  by (simp add: dict_get_def)

lemma least_fkey_unique:
  assumes "r \<noteq> NaN" "r = Infinity False \<or> r \<in> S" "\<forall>v\<in>S. v \<noteq> NaN \<longrightarrow> fkey r \<le> fkey v"
    and "r' \<noteq> NaN" "r' = Infinity False \<or> r' \<in> S" "\<forall>v\<in>S. v \<noteq> NaN \<longrightarrow> fkey r' \<le> fkey v"
  shows "fkey r = fkey r'"
proof (rule antisym)
  show "fkey r \<le> fkey r'"
    using assms(3,4,5) fkey_top [OF assms(1)] by auto
  show "fkey r' \<le> fkey r"
    using assms(6,1,2) fkey_top [OF assms(4)] by auto
qed

lemma greatest_fkey_unique:
  assumes "r \<noteq> NaN" "r = Infinity True \<or> r \<in> S" "\<forall>v\<in>S. v \<noteq> NaN \<longrightarrow> fkey v \<le> fkey r"
    and "r' \<noteq> NaN" "r' = Infinity True \<or> r' \<in> S" "\<forall>v\<in>S. v \<noteq> NaN \<longrightarrow> fkey v \<le> fkey r'"
  shows "fkey r = fkey r'"
proof (rule antisym)
  show "fkey r \<le> fkey r'"
    using assms(6,1,2) fkey_bot [of r'] by auto
  show "fkey r' \<le> fkey r"
    using assms(3,4,5) fkey_bot [of r] by auto
qed

subsection \<open>Minimum and maximum\<close>

text \<open>
  C2, as amended. After any sequence of updates from the empty tables, for a key \<open>k\<close>
  with a positive count and no NaN among the values ingested under it, the stored
  minimum and maximum are values ingested under \<open>k\<close>, and every value ingested under
  \<open>k\<close> lies between them (\<^verbatim>\<open><=\<close> of the floats).
\<close>

theorem min_max_true_extremes:
  assumes "0 < dict_get (medicoes (ingest_all recs empty_tables)) k 0"
    and "NaN \<notin> set (values_of k recs)"
  shows "\<exists>mn mx.
      minimas (ingest_all recs empty_tables) k = Some mn \<and>
      maximas (ingest_all recs empty_tables) k = Some mx \<and>
      mn \<in> set (values_of k recs) \<and> mx \<in> set (values_of k recs) \<and>
      (\<forall>v\<in>set (values_of k recs). float_le mn v \<and> float_le v mx)"
proof -
  define vs where "vs = values_of k recs"
  define mn where "mn = foldl py_min (Infinity False) vs"
  define mx where "mx = foldl py_max (Infinity True) vs"
  have ne: "vs \<noteq> []"
    using assms(1) by (auto simp: dict_get_def medicoes_ingest_all vs_def empty_tables_def)
  then obtain w where w: "w \<in> set vs" by (cases vs) auto
  have nonan: "\<forall>v\<in>set vs. v \<noteq> NaN"
    using assms(2) by (auto simp: vs_def)
  have mn: "mn \<noteq> NaN" "mn = Infinity False \<or> mn \<in> set vs" "\<forall>v\<in>set vs. fkey mn \<le> fkey v"
    using foldl_py_min_least [of "Infinity False" vs] nonan by (auto simp: mn_def)
  have mx: "mx \<noteq> NaN" "mx = Infinity True \<or> mx \<in> set vs" "\<forall>v\<in>set vs. fkey v \<le> fkey mx"
    using foldl_py_max_greatest [of "Infinity True" vs] nonan by (auto simp: mx_def)
  have mn_in: "mn \<in> set vs"
  proof (cases "mn \<in> set vs")
    case False
    with mn(2) have "mn = Infinity False" by simp
    with mn(3) w have "fkey (Infinity False) \<le> fkey w" by simp
    moreover have "fkey w \<le> fkey (Infinity False)"
      using nonan w by (simp add: fkey_top)
    ultimately have "w = Infinity False"
      by (simp add: fkey_eq_top [symmetric])
    with w \<open>mn = Infinity False\<close> show ?thesis by simp
  qed simp
  have mx_in: "mx \<in> set vs"
  proof (cases "mx \<in> set vs")
    case False
    with mx(2) have "mx = Infinity True" by simp
    with mx(3) w have "fkey w \<le> fkey (Infinity True)" by simp
    then have "w = Infinity True"
      using fkey_bot [of w] by (simp add: fkey_eq_bot [symmetric])
    with w \<open>mx = Infinity True\<close> show ?thesis by simp
  qed simp
  have "minimas (ingest_all recs empty_tables) k = Some mn"
    using ne by (simp add: minimas_ingest_all vs_def mn_def dd_value_def empty_tables_def)
  moreover have "maximas (ingest_all recs empty_tables) k = Some mx"
    using ne by (simp add: maximas_ingest_all vs_def mx_def dd_value_def empty_tables_def)
  moreover have "\<forall>v\<in>set vs. float_le mn v \<and> float_le v mx"
    using mn(1,3) mx(1,3) nonan by (simp add: float_le_fkey)
  ultimately show ?thesis
    using mn_in mx_in unfolding vs_def by blast
qed

text \<open>The theorem at the records \<^verbatim>\<open>(A, 10.0)\<close>, \<^verbatim>\<open>(B, -5.5)\<close>, \<^verbatim>\<open>(A, 20.0)\<close> and the key \<^verbatim>\<open>A\<close>.\<close>

theorem min_max_true_extremes_witness:
  "0 < dict_get (medicoes (ingest_all [(str ''A'', Finite False 5 1), (str ''B'', Finite True 11 (- 1)), (str ''A'', Finite False 5 2)] empty_tables)) (str ''A'') 0
   \<and> NaN \<notin> set (values_of (str ''A'') [(str ''A'', Finite False 5 1), (str ''B'', Finite True 11 (- 1)), (str ''A'', Finite False 5 2)])
   \<and> (\<exists>mn mx.
      minimas (ingest_all [(str ''A'', Finite False 5 1), (str ''B'', Finite True 11 (- 1)), (str ''A'', Finite False 5 2)] empty_tables) (str ''A'') = Some mn \<and>
      maximas (ingest_all [(str ''A'', Finite False 5 1), (str ''B'', Finite True 11 (- 1)), (str ''A'', Finite False 5 2)] empty_tables) (str ''A'') = Some mx \<and>
      mn \<in> set (values_of (str ''A'') [(str ''A'', Finite False 5 1), (str ''B'', Finite True 11 (- 1)), (str ''A'', Finite False 5 2)]) \<and>
      mx \<in> set (values_of (str ''A'') [(str ''A'', Finite False 5 1), (str ''B'', Finite True 11 (- 1)), (str ''A'', Finite False 5 2)]) \<and>
      (\<forall>v\<in>set (values_of (str ''A'') [(str ''A'', Finite False 5 1), (str ''B'', Finite True 11 (- 1)), (str ''A'', Finite False 5 2)]). float_le mn v \<and> float_le v mx))"
proof -
  have h1: "0 < dict_get (medicoes (ingest_all [(str ''A'', Finite False 5 1), (str ''B'', Finite True 11 (- 1)), (str ''A'', Finite False 5 2)] empty_tables)) (str ''A'') 0"
    by code_simp
  have h2: "NaN \<notin> set (values_of (str ''A'') [(str ''A'', Finite False 5 1), (str ''B'', Finite True 11 (- 1)), (str ''A'', Finite False 5 2)])"
    by code_simp
  from min_max_true_extremes [OF h1 h2] h1 h2 show ?thesis by blast
qed

text \<open>
  C2 as stated fails on the line \<^verbatim>\<open>A;nan\<close>, which \<^verbatim>\<open>float\<close> accepts: the count of
  \<^verbatim>\<open>A\<close> is 1, the only value ingested is a NaN, the stored minimum is the positive
  infinity and the stored maximum the negative one: neither is the value ingested, and
  neither \<^verbatim>\<open>min <= v\<close> nor \<^verbatim>\<open>v <= max\<close> holds.
\<close>

theorem nan_breaks_min_max:
  "ingest_rows [str ''A;nan'' @ [10]] empty_tables = Inr (ingest_all [(str ''A'', NaN)] empty_tables)
   \<and> dict_get (medicoes (ingest_all [(str ''A'', NaN)] empty_tables)) (str ''A'') 0 = 1
   \<and> values_of (str ''A'') [(str ''A'', NaN)] = [NaN]
   \<and> minimas (ingest_all [(str ''A'', NaN)] empty_tables) (str ''A'') = Some (Infinity False)
   \<and> maximas (ingest_all [(str ''A'', NaN)] empty_tables) (str ''A'') = Some (Infinity True)
   \<and> \<not> float_le (Infinity False) NaN \<and> \<not> float_le NaN (Infinity True)"
proof -
  have r: "Reader_iternext [str ''A;nan'' @ [10]] = Some (Inr ([str ''A'', str ''nan''], []))"
    "Reader_iternext [] = None"
    by code_simp+
  have p: "parse_row [str ''A'', str ''nan''] = Inr (str ''A'', NaN)"
    by code_simp
  have "ingest_rows [str ''A;nan'' @ [10]] empty_tables = Inr (ingest_all [(str ''A'', NaN)] empty_tables)"
    by (simp only: ingest_rows_step [OF r(1) p] ingest_rows_end [OF r(2)] ingest_all_Cons ingest_all_Nil)
  moreover have "dict_get (medicoes (ingest_all [(str ''A'', NaN)] empty_tables)) (str ''A'') 0 = 1"
    "values_of (str ''A'') [(str ''A'', NaN)] = [NaN]"
    "minimas (ingest_all [(str ''A'', NaN)] empty_tables) (str ''A'') = Some (Infinity False)"
    "maximas (ingest_all [(str ''A'', NaN)] empty_tables) (str ''A'') = Some (Infinity True)"
    "\<not> float_le (Infinity False) NaN" "\<not> float_le NaN (Infinity True)"
    by code_simp+
  ultimately show ?thesis by simp
qed

subsection \<open>Merging two tables\<close>

lemma values_of_map_Pair: "values_of k (map (Pair k) vs) = vs"
  by (induction vs) simp_all

lemma built_state_eq:
  "built_state k vs =
     (if vs = [] then None
      else Some \<lparr>agg_count = int (length vs),
                 agg_min = foldl py_min (Infinity False) vs,
                 agg_max = foldl py_max (Infinity True) vs,
                 agg_sum = foldl float_add (Finite False 0 0) vs\<rparr>)"
  by (simp add: built_state_def state_of_def medicoes_ingest_all minimas_ingest_all
      maximas_ingest_all somas_ingest_all values_of_map_Pair dd_value_def empty_tables_def)

text \<open>
  C6, as amended. When the values \<open>zs\<close> are those of \<open>xs\<close> and \<open>ys\<close> together, in any
  order, the merge of the states built from \<open>xs\<close> and from \<open>ys\<close> has the count of
  the state built from \<open>zs\<close>, and a minimum and a maximum equal to its minimum and
  maximum as floats compare (\<^verbatim>\<open>==\<close>, under which the two zeros are equal). This
  holds with NaN values too, which never become a minimum or maximum. Nothing is said
  of the sum.
\<close>

theorem merge_agrees_on_count_min_max:
  assumes "mset zs = mset xs + mset ys"
    and "built_state k xs = Some a" and "built_state k ys = Some b"
  shows "\<exists>c. built_state k zs = Some c \<and>
      agg_count (merge_states a b) = agg_count c \<and>
      float_eq (agg_min (merge_states a b)) (agg_min c) \<and>
      float_eq (agg_max (merge_states a b)) (agg_max c)"
proof -
  have xs: "xs \<noteq> []" and a: "a = \<lparr>agg_count = int (length xs),
      agg_min = foldl py_min (Infinity False) xs, agg_max = foldl py_max (Infinity True) xs,
      agg_sum = foldl float_add (Finite False 0 0) xs\<rparr>"
    using assms(2) by (auto simp: built_state_eq split: if_splits)
  have ys: "ys \<noteq> []" and b: "b = \<lparr>agg_count = int (length ys),
      agg_min = foldl py_min (Infinity False) ys, agg_max = foldl py_max (Infinity True) ys,
      agg_sum = foldl float_add (Finite False 0 0) ys\<rparr>"
    using assms(3) by (auto simp: built_state_eq split: if_splits)
  have len: "length zs = length xs + length ys"
    using assms(1) by (metis size_mset size_union)
  have set: "set zs = set xs \<union> set ys"
    using assms(1) by (metis set_mset_mset set_mset_union)
  have zs: "zs \<noteq> []" using len xs by auto
  define c where "c = \<lparr>agg_count = int (length zs),
      agg_min = foldl py_min (Infinity False) zs, agg_max = foldl py_max (Infinity True) zs,
      agg_sum = foldl float_add (Finite False 0 0) zs\<rparr>"
  have c: "built_state k zs = Some c"
    using zs by (simp add: built_state_eq c_def)
  note lx = foldl_py_min_least [of "Infinity False" xs, simplified]
  note ly = foldl_py_min_least [of "Infinity False" ys, simplified]
  note lz = foldl_py_min_least [of "Infinity False" zs, simplified]
  note gx = foldl_py_max_greatest [of "Infinity True" xs, simplified]
  note gy = foldl_py_max_greatest [of "Infinity True" ys, simplified]
  note gz = foldl_py_max_greatest [of "Infinity True" zs, simplified]
  define m where "m = py_min (foldl py_min (Infinity False) xs) (foldl py_min (Infinity False) ys)"
  have m: "m \<noteq> NaN" "m = foldl py_min (Infinity False) xs \<or> m = foldl py_min (Infinity False) ys"
    "fkey m = min (fkey (foldl py_min (Infinity False) xs)) (fkey (foldl py_min (Infinity False) ys))"
    using py_min_fkey [of "foldl py_min (Infinity False) xs" "foldl py_min (Infinity False) ys"] lx ly
    by (simp_all add: m_def)
  have "fkey m = fkey (foldl py_min (Infinity False) zs)"
  proof (rule least_fkey_unique [where S = "set zs"])
    show "m \<noteq> NaN" by (rule m(1))
    show "m = Infinity False \<or> m \<in> set zs" using m(2) lx ly set by auto
    show "\<forall>v\<in>set zs. v \<noteq> NaN \<longrightarrow> fkey m \<le> fkey v"
      using m(3) lx ly set by (auto simp: min_le_iff_disj)
    show "foldl py_min (Infinity False) zs \<noteq> NaN" using lz by simp
    show "foldl py_min (Infinity False) zs = Infinity False \<or> foldl py_min (Infinity False) zs \<in> set zs"
      using lz by simp
    show "\<forall>v\<in>set zs. v \<noteq> NaN \<longrightarrow> fkey (foldl py_min (Infinity False) zs) \<le> fkey v"
      using lz by simp
  qed
  then have min_eq: "float_eq (agg_min (merge_states a b)) (agg_min c)"
    using m(1) lz by (simp add: float_eq_fkey merge_states_def a b c_def m_def)
  define g where "g = py_max (foldl py_max (Infinity True) xs) (foldl py_max (Infinity True) ys)"
  have g: "g \<noteq> NaN" "g = foldl py_max (Infinity True) xs \<or> g = foldl py_max (Infinity True) ys"
    "fkey g = max (fkey (foldl py_max (Infinity True) xs)) (fkey (foldl py_max (Infinity True) ys))"
    using py_max_fkey [of "foldl py_max (Infinity True) xs" "foldl py_max (Infinity True) ys"] gx gy
    by (simp_all add: g_def)
  have "fkey g = fkey (foldl py_max (Infinity True) zs)"
  proof (rule greatest_fkey_unique [where S = "set zs"])
    show "g \<noteq> NaN" by (rule g(1))
    show "g = Infinity True \<or> g \<in> set zs" using g(2) gx gy set by auto
    show "\<forall>v\<in>set zs. v \<noteq> NaN \<longrightarrow> fkey v \<le> fkey g"
      using g(3) gx gy set by (auto simp: le_max_iff_disj)
    show "foldl py_max (Infinity True) zs \<noteq> NaN" using gz by simp
    show "foldl py_max (Infinity True) zs = Infinity True \<or> foldl py_max (Infinity True) zs \<in> set zs"
      using gz by simp
    show "\<forall>v\<in>set zs. v \<noteq> NaN \<longrightarrow> fkey v \<le> fkey (foldl py_max (Infinity True) zs)"
      using gz by simp
  qed
  then have max_eq: "float_eq (agg_max (merge_states a b)) (agg_max c)"
    using g(1) gz by (simp add: float_eq_fkey merge_states_def a b c_def g_def)
  have "agg_count (merge_states a b) = agg_count c"
    by (simp add: merge_states_def a b c_def len)
  with c min_eq max_eq show ?thesis by blast
qed

text \<open>The theorem at \<open>xs\<close> = 10.0, \<open>ys\<close> = 20.0, -5.5 and \<open>zs\<close> = -5.5, 10.0, 20.0.\<close>

theorem merge_agrees_on_count_min_max_witness:
  "mset [Finite True 11 (- 1), Finite False 5 1, Finite False 5 2] =
     mset [Finite False 5 1] + mset [Finite False 5 2, Finite True 11 (- 1)]
   \<and> built_state (str ''A'') [Finite False 5 1] =
     Some \<lparr>agg_count = 1, agg_min = Finite False 5 1, agg_max = Finite False 5 1, agg_sum = Finite False 5 1\<rparr>
   \<and> built_state (str ''A'') [Finite False 5 2, Finite True 11 (- 1)] =
     Some \<lparr>agg_count = 2, agg_min = Finite True 11 (- 1), agg_max = Finite False 5 2, agg_sum = Finite False 29 (- 1)\<rparr>
   \<and> (\<exists>c. built_state (str ''A'') [Finite True 11 (- 1), Finite False 5 1, Finite False 5 2] = Some c \<and>
        agg_count (merge_states
          \<lparr>agg_count = 1, agg_min = Finite False 5 1, agg_max = Finite False 5 1, agg_sum = Finite False 5 1\<rparr>
          \<lparr>agg_count = 2, agg_min = Finite True 11 (- 1), agg_max = Finite False 5 2, agg_sum = Finite False 29 (- 1)\<rparr>) = agg_count c \<and>
        float_eq (agg_min (merge_states
          \<lparr>agg_count = 1, agg_min = Finite False 5 1, agg_max = Finite False 5 1, agg_sum = Finite False 5 1\<rparr>
          \<lparr>agg_count = 2, agg_min = Finite True 11 (- 1), agg_max = Finite False 5 2, agg_sum = Finite False 29 (- 1)\<rparr>)) (agg_min c) \<and>
        float_eq (agg_max (merge_states
          \<lparr>agg_count = 1, agg_min = Finite False 5 1, agg_max = Finite False 5 1, agg_sum = Finite False 5 1\<rparr>
          \<lparr>agg_count = 2, agg_min = Finite True 11 (- 1), agg_max = Finite False 5 2, agg_sum = Finite False 29 (- 1)\<rparr>)) (agg_max c))"
proof -
  have h1: "mset [Finite True 11 (- 1), Finite False 5 1, Finite False 5 2] =
     mset [Finite False 5 1] + mset [Finite False 5 2, Finite True 11 (- 1)]"
    by simp
  have h2: "built_state (str ''A'') [Finite False 5 1] =
     Some \<lparr>agg_count = 1, agg_min = Finite False 5 1, agg_max = Finite False 5 1, agg_sum = Finite False 5 1\<rparr>"
    by code_simp
  have h3: "built_state (str ''A'') [Finite False 5 2, Finite True 11 (- 1)] =
     Some \<lparr>agg_count = 2, agg_min = Finite True 11 (- 1), agg_max = Finite False 5 2, agg_sum = Finite False 29 (- 1)\<rparr>"
    by code_simp
  from merge_agrees_on_count_min_max [OF h1 h2 h3] h1 h2 h3 show ?thesis
    by blast
qed

text \<open>
  C6 as stated fails for the sum: float addition rounds, so it is not associative. With
  the values \<^verbatim>\<open>9007199254740992.0\<close> (\<open>2^53\<close>), \<^verbatim>\<open>1.0\<close>, \<^verbatim>\<open>1.0\<close> under one key,
  ingesting all three in this order leaves the sum \<open>2^53\<close> (each \<^verbatim>\<open>+ 1.0\<close> is rounded
  away), while merging the state of the first with the state of the other two gives
  the sum \<open>2^53 + 2\<close>.
\<close>

theorem merged_sum_differs:
  "built_state (str ''A'') [Finite False 1 53] =
     Some \<lparr>agg_count = 1, agg_min = Finite False 1 53, agg_max = Finite False 1 53, agg_sum = Finite False 1 53\<rparr>
   \<and> built_state (str ''A'') [Finite False 1 0, Finite False 1 0] =
     Some \<lparr>agg_count = 2, agg_min = Finite False 1 0, agg_max = Finite False 1 0, agg_sum = Finite False 1 1\<rparr>
   \<and> merge_states
       \<lparr>agg_count = 1, agg_min = Finite False 1 53, agg_max = Finite False 1 53, agg_sum = Finite False 1 53\<rparr>
       \<lparr>agg_count = 2, agg_min = Finite False 1 0, agg_max = Finite False 1 0, agg_sum = Finite False 1 1\<rparr> =
     \<lparr>agg_count = 3, agg_min = Finite False 1 0, agg_max = Finite False 1 53, agg_sum = Finite False 4503599627370497 1\<rparr>
   \<and> built_state (str ''A'') [Finite False 1 53, Finite False 1 0, Finite False 1 0] =
     Some \<lparr>agg_count = 3, agg_min = Finite False 1 0, agg_max = Finite False 1 53, agg_sum = Finite False 1 53\<rparr>
   \<and> \<not> float_eq (Finite False 4503599627370497 1) (Finite False 1 53)"
  by code_simp

subsection \<open>The division by the count\<close>

lemma bit_length_bounds:
  "1 \<le> n \<Longrightarrow> 1 \<le> bit_length n \<and> 2 ^ nat (bit_length n - 1) \<le> n \<and> n < 2 ^ nat (bit_length n)"
proof (induction n rule: bit_length.induct)
  case (1 n)
  show ?case
  proof (cases "n = 1")
    case True
    have "bit_length 1 = 1"
      by (simp add: bit_length.simps)
    with True show ?thesis by simp
  next
    case False
    with 1 have n2: "1 \<le> n div 2" "\<not> n \<le> 0" by auto
    define b where "b = bit_length (n div 2)"
    from 1 n2 have ih: "1 \<le> b" "2 ^ nat (b - 1) \<le> n div 2" "n div 2 < 2 ^ nat b"
      by (simp_all add: b_def)
    have bl: "bit_length n = 1 + b"
      using n2 by (subst bit_length.simps) (simp add: b_def)
    have e1: "nat (1 + b - 1) = Suc (nat (b - 1))"
      using ih(1) by simp
    have e2: "nat (1 + b) = Suc (nat b)"
      using ih(1) by simp
    have "(2::int) ^ nat (1 + b - 1) \<le> n"
      using ih(2) unfolding e1 by simp
    moreover have "n < 2 ^ nat (1 + b)"
      using ih(3) unfolding e2 by simp
    ultimately show ?thesis using ih(1) bl by simp
  qed
qed

lemma bit_length_1: "bit_length 1 = 1"
  by (simp add: bit_length.simps)

lemma floor_log2_ratio_int: "1 \<le> c \<Longrightarrow> floor_log2_ratio c 1 = bit_length c - 1"
  using bit_length_bounds [of c]
  by (simp add: floor_log2_ratio_def bit_length_1 Let_def)

lemma strip_twos_pos: "0 < m \<Longrightarrow> 0 < fst (strip_twos m e)"
proof (induction m e rule: strip_twos.induct)
  case (1 m e)
  show ?case
  proof (cases "even m")
    case True
    with 1 have "0 < m div 2" by presburger
    with 1 True show ?thesis by (subst strip_twos.simps) simp
  next
    case False
    with 1 show ?thesis by (subst strip_twos.simps) simp
  qed
qed

lemma round_half_even_ge: "0 < den \<Longrightarrow> num div den \<le> round_half_even num den"
  by (simp add: round_half_even_def Let_def)

lemma PyLong_AsDouble_count:
  assumes "1 \<le> c"
  shows "PyLong_AsDouble c = Inl OverflowError \<or>
         (\<exists>m e. PyLong_AsDouble c = Inr (Finite False m e) \<and> 0 < m)"
    and "c < 2 ^ 1023 \<Longrightarrow> PyLong_AsDouble c \<noteq> Inl OverflowError"
proof -
  define e where "e = bit_length c - 1"
  define t where "t = max (e - 52) (- 1074)"
  define n where "n = round_half_even (c * 2 ^ nat (- t)) (2 ^ nat t)"
  note b = bit_length_bounds [OF assms(1)]
  have e0: "0 \<le> e" using b by (simp add: e_def)
  have t: "t = e - 52" using e0 by (simp add: t_def)
  have n1: "1 \<le> n"
  proof (cases "t \<le> 0")
    case True
    then have "n = c * 2 ^ nat (- t)"
      by (simp add: n_def round_half_even_def)
    moreover have "1 * 1 \<le> c * 2 ^ nat (- t)"
      using assms(1) by (intro mult_mono) simp_all
    ultimately show ?thesis by simp
  next
    case False
    then have tp: "0 < t" by simp
    have "(2::int) ^ nat t \<le> 2 ^ nat e"
      using tp t by (intro power_increasing) simp_all
    also have "\<dots> \<le> c" using b by (simp add: e_def)
    finally have "(2::int) ^ nat t div 2 ^ nat t \<le> c div 2 ^ nat t"
      by (intro zdiv_mono1) simp_all
    then have "1 \<le> c div 2 ^ nat t"
      by simp
    moreover have "c div 2 ^ nat t \<le> n"
      using tp round_half_even_ge [of "2 ^ nat t" c] by (simp add: n_def)
    ultimately show ?thesis by simp
  qed
  obtain m e' where s: "strip_twos n t = (m, e')" by (cases "strip_twos n t")
  have m: "0 < m" using strip_twos_pos [of n t] n1 s by simp
  have r: "round_to_double False c 1 =
      (if 971 < t \<or> (t = 971 \<and> 2 ^ 53 \<le> n) then Infinity False else Finite False m e')"
    using assms(1) n1 s
    by (simp add: round_to_double_def floor_log2_ratio_int Let_def e_def [symmetric]
        t_def [symmetric] n_def [symmetric] del: power_numeral)
  show "PyLong_AsDouble c = Inl OverflowError \<or>
         (\<exists>m e. PyLong_AsDouble c = Inr (Finite False m e) \<and> 0 < m)"
    using assms(1) m by (simp add: PyLong_AsDouble_def r del: power_numeral)
  show "PyLong_AsDouble c \<noteq> Inl OverflowError" if "c < 2 ^ 1023"
  proof -
    have "(2::int) ^ nat e < 2 ^ 1023"
      using b that by (simp add: e_def)
    then have "nat e < 1023"
      by (intro power_less_imp_less_exp [of "2::int"]) simp_all
    then have "t \<le> 970" using t by simp
    then show ?thesis
      using assms(1) by (simp add: PyLong_AsDouble_def r del: power_numeral)
  qed
qed

lemma float_div_count:
  assumes "1 \<le> c"
  shows "float_div x c \<noteq> Inl ZeroDivisionError"
    and "c < 2 ^ 1023 \<Longrightarrow> \<exists>y. float_div x c = Inr y"
proof -
  have nz: "\<not> float_eq (Finite False m e) (Finite False 0 0)" if "0 < m" for m e
    using that by (simp add: Let_def signed_def)
  from PyLong_AsDouble_count(1) [OF assms] nz
  show "float_div x c \<noteq> Inl ZeroDivisionError"
    by (auto simp: float_div_def)
  show "\<exists>y. float_div x c = Inr y" if "c < 2 ^ 1023"
    using PyLong_AsDouble_count(1) [OF assms] PyLong_AsDouble_count(2) [OF assms that] nz
    by (auto simp: float_div_def)
qed

subsection \<open>What the loop leaves\<close>

lemma distinct_dict_set: "distinct (map fst d) \<Longrightarrow> distinct (map fst (dict_set d k v))"
  by (simp add: map_fst_dict_set)

lemma distinct_medicoes_ingest:
  "distinct (map fst (medicoes t)) \<Longrightarrow> distinct (map fst (medicoes (ingest k v t)))"
  by (simp add: ingest_def counter_update_def distinct_dict_set split: prod.split)

lemma distinct_medicoes_ingest_all:
  "distinct (map fst (medicoes t)) \<Longrightarrow> distinct (map fst (medicoes (ingest_all recs t)))"
  by (induction recs arbitrary: t) (auto simp: distinct_medicoes_ingest)

lemma length_values_of: "length (values_of k recs) \<le> length recs"
  by (simp add: values_of_def)

lemma medicoes_counts:
  assumes "(k, c) \<in> set (medicoes (ingest_all recs empty_tables))"
  shows "1 \<le> c \<and> c \<le> int (length recs)"
proof -
  have "distinct (map fst (medicoes (ingest_all recs empty_tables)))"
    by (rule distinct_medicoes_ingest_all) (simp add: empty_tables_def)
  with assms have "map_of (medicoes (ingest_all recs empty_tables)) k = Some c"
    by simp
  then have "values_of k recs \<noteq> []" "c = int (length (values_of k recs))"
    by (auto simp: medicoes_ingest_all empty_tables_def split: if_splits)
  then show ?thesis
    using length_values_of [of k recs] by (cases "values_of k recs") auto
qed

lemma ingest_rows_result:
  "ingest_rows ls t = res \<Longrightarrow>
   \<exists>recs. length recs \<le> length ls \<and>
     (case res of Inr t' \<Rightarrow> t' = ingest_all recs t | Inl (e, t') \<Rightarrow> t' = ingest_all recs t)"
proof (induction "length ls" arbitrary: ls t res rule: less_induct)
  case less
  show ?case
  proof (cases "Reader_iternext ls")
    case None
    with less.prems have "res = Inr t"
      by (simp add: ingest_rows_end)
    then show ?thesis
      by (intro exI [of _ "[]"]) simp
  next
    case (Some x)
    show ?thesis
    proof (cases x)
      case (Inl e)
      with Some less.prems have "res = Inl (e, t)"
        by (subst (asm) ingest_rows.simps) simp
      then show ?thesis
        by (intro exI [of _ "[]"]) simp
    next
      case (Inr p)
      obtain row rest where p: "p = (row, rest)" by (cases p)
      note it = Some [unfolded Inr p]
      have shorter: "length rest < length ls"
        by (rule Reader_iternext_shorter [OF it])
      show ?thesis
      proof (cases "parse_row row")
        case (Inl e)
        with it less.prems have "res = Inl (e, t)"
          by (subst (asm) ingest_rows.simps) simp
        then show ?thesis
          by (intro exI [of _ "[]"]) simp
      next
        case (Inr kv)
        obtain k v where kv: "kv = (k, v)" by (cases kv)
        from less.prems have "ingest_rows rest (ingest k v t) = res"
          by (simp add: ingest_rows_step [OF it Inr [unfolded kv]])
        from less.hyps [OF shorter this] obtain recs where
          r: "length recs \<le> length rest"
            "case res of Inr t' \<Rightarrow> t' = ingest_all recs (ingest k v t)
              | Inl (e, t') \<Rightarrow> t' = ingest_all recs (ingest k v t)"
          by blast
        show ?thesis
          using r shorter
          by (intro exI [of _ "(k, v) # recs"]) (auto split: sum.splits)
      qed
    qed
  qed
qed

lemma calc_results_total:
  assumes "\<forall>(k, c)\<in>set items. 1 \<le> c"
  shows "calc_results t items acc \<noteq> Inl ZeroDivisionError"
    and "\<forall>(k, c)\<in>set items. c < 2 ^ 1023 \<Longrightarrow> \<exists>r. calc_results t items acc = Inr r"
  using assms
proof (induction items arbitrary: acc)
  case Nil
  {
    case 1
    show ?case by simp
  next
    case 2
    show ?case by simp
  }
next
  case (Cons item items)
  obtain k c where item: "item = (k, c)" by (cases item)
  {
    case 1
    then have c: "1 \<le> c" and rest: "\<forall>(k, c)\<in>set items. 1 \<le> c"
      by (auto simp: item)
    show ?case
      using float_div_count(1) [OF c] Cons.IH(1) [OF rest]
      by (auto simp: item split: sum.splits)
  next
    case 2
    then have c: "1 \<le> c" "c < 2 ^ 1023" and rest: "\<forall>(k, c)\<in>set items. 1 \<le> c"
      "\<forall>(k, c)\<in>set items. c < 2 ^ 1023"
      by (auto simp: item)
    from float_div_count(2) [OF c] obtain y where
      "float_div (fst (defaultdict_getitem (somas t) (Finite False 0 0) k)) c = Inr y"
      by blast
    then show ?case
      using Cons.IH(2) [OF rest(2) rest(1)] by (simp add: item)
  }
qed

text \<open>
  C9. When the loop has run to the end of the input, every key of \<^verbatim>\<open>medicoes\<close> has a
  count of at least one, so \<^verbatim>\<open>somas[station] / qtd_medicoes\<close> never raises
  \<^verbatim>\<open>ZeroDivisionError\<close>; and the computation of the statistics returns (the only other
  exception of the division, \<^verbatim>\<open>OverflowError\<close> for a count too large for a float, needs
  more than \<open>2^1023\<close> lines).
\<close>

theorem counts_positive_snapshot_total:
  assumes "ingest_rows ls empty_tables = Inr t"
  shows "(\<forall>(station, qtd_medicoes)\<in>set (medicoes t). 1 \<le> qtd_medicoes) \<and>
         snapshot t \<noteq> Inl ZeroDivisionError \<and>
         (int (length ls) < 2 ^ 1023 \<longrightarrow> (\<exists>results. snapshot t = Inr results))"
proof -
  from ingest_rows_result [OF assms] obtain recs where
    recs: "length recs \<le> length ls" "t = ingest_all recs empty_tables"
    by auto
  have pos: "\<forall>(k, c)\<in>set (medicoes t). 1 \<le> c"
    using medicoes_counts [of _ _ recs] recs(2) by blast
  have small: "\<forall>(k, c)\<in>set (medicoes t). c < 2 ^ 1023" if "int (length ls) < 2 ^ 1023"
  proof -
    have "c < 2 ^ 1023" if "(k, c) \<in> set (medicoes t)" for k c
    proof -
      have "c \<le> int (length recs)"
        using medicoes_counts [of k c recs] that recs(2) by simp
      also have "\<dots> \<le> int (length ls)" using recs(1) by simp
      finally show ?thesis using \<open>int (length ls) < 2 ^ 1023\<close> by linarith
    qed
    then show ?thesis by blast
  qed
  show ?thesis
    using pos calc_results_total(1) [OF pos] calc_results_total(2) [OF pos small]
    unfolding snapshot_def by blast
qed

text \<open>The theorem at the three lines of scenario 1.\<close>

theorem counts_positive_snapshot_total_witness:
  "ingest_rows scenario_1 empty_tables =
     Inr \<lparr>minimas = [str ''A'' \<mapsto> Finite False 5 1, str ''B'' \<mapsto> Finite True 11 (- 1)],
          maximas = [str ''A'' \<mapsto> Finite False 5 2, str ''B'' \<mapsto> Finite True 11 (- 1)],
          somas = [str ''A'' \<mapsto> Finite False 15 1, str ''B'' \<mapsto> Finite True 11 (- 1)],
          medicoes = [(str ''A'', 2), (str ''B'', 1)]\<rparr>
   \<and> int (length scenario_1) < 2 ^ 1023
   \<and> snapshot \<lparr>minimas = [str ''A'' \<mapsto> Finite False 5 1, str ''B'' \<mapsto> Finite True 11 (- 1)],
          maximas = [str ''A'' \<mapsto> Finite False 5 2, str ''B'' \<mapsto> Finite True 11 (- 1)],
          somas = [str ''A'' \<mapsto> Finite False 15 1, str ''B'' \<mapsto> Finite True 11 (- 1)],
          medicoes = [(str ''A'', 2), (str ''B'', 1)]\<rparr> \<noteq> Inl ZeroDivisionError
   \<and> (\<exists>results. snapshot \<lparr>minimas = [str ''A'' \<mapsto> Finite False 5 1, str ''B'' \<mapsto> Finite True 11 (- 1)],
          maximas = [str ''A'' \<mapsto> Finite False 5 2, str ''B'' \<mapsto> Finite True 11 (- 1)],
          somas = [str ''A'' \<mapsto> Finite False 15 1, str ''B'' \<mapsto> Finite True 11 (- 1)],
          medicoes = [(str ''A'', 2), (str ''B'', 1)]\<rparr> = Inr results)"
proof -
  have small: "int (length scenario_1) < 2 ^ 1023"
    by (simp add: scenario_1_def)
  from counts_positive_snapshot_total [OF scenario_1_tables] small scenario_1_tables
  show ?thesis by blast
qed

subsection \<open>One line\<close>

lemma ingest_rows_Record:
  assumes "parse_line l = Record k v"
  shows "ingest_rows (l # ls) t = ingest_rows ls (ingest k v t)"
proof -
  from assms obtain r where r: "process_line parse_reset l = Inr r" "state r = START_RECORD"
    "parse_row (row_fields r) = Inr (k, v)"
    by (auto simp: parse_line_def split: sum.splits if_splits)
  have "Reader_iternext (l # ls) = Some (Inr (row_fields r, ls))"
    using r(1,2) by (simp add: Reader_iternext_def)
  from ingest_rows_step [OF this r(3)] show ?thesis .
qed

lemma ingest_rows_ParseError:
  assumes "parse_line l = ParseError e"
  shows "ingest_rows (l # ls) t = Inl (e, t)"
proof (cases "process_line parse_reset l")
  case (Inl e')
  with assms have "e' = e" by (simp add: parse_line_def)
  with Inl have "Reader_iternext (l # ls) = Some (Inl e)"
    by (simp add: Reader_iternext_def)
  then show ?thesis by (subst ingest_rows.simps) simp
next
  case (Inr r)
  with assms have r: "state r = START_RECORD" "parse_row (row_fields r) = Inl e"
    by (auto simp: parse_line_def split: sum.splits if_splits)
  have "Reader_iternext (l # ls) = Some (Inr (row_fields r, ls))"
    using Inr r(1) by (simp add: Reader_iternext_def)
  with r(2) show ?thesis by (subst ingest_rows.simps) simp
qed

lemma Reader_iternext_Nil: "Reader_iternext [] = None"
  by (simp add: Reader_iternext_def parse_reset_def)

lemma line_X: "parse_line (str ''X'') = ParseError IndexError"
  "parse_line (str ''X'' @ [10]) = ParseError IndexError"
  by code_simp+

subsection \<open>Lines without quotes\<close>

lemma process_unquoted_char:
  assumes "in_field r" "c \<noteq> quotechar" "c \<noteq> 10" "c \<noteq> 13"
    "int (length (field r)) < field_limit"
  shows "\<exists>r'. parse_process_char r (Ch c) = Inr r' \<and> in_field r' \<and>
     row_fields r' @ split_fields (field r') cs = row_fields r @ split_fields (field r) (c # cs) \<and>
     length (field r') \<le> Suc (length (field r))"
  using assms
  by (auto simp: in_field_def parse_process_char_def process_START_FIELD_def parse_add_char_def
      parse_save_field_def with_state_def)

lemma process_unquoted_chars:
  assumes "in_field r" "unquoted cs" "int (length (field r)) + int (length cs) \<le> field_limit"
  shows "\<exists>r'. process_chars r cs = Inr r' \<and> in_field r' \<and>
     row_fields r' @ [field r'] = row_fields r @ split_fields (field r) cs"
  using assms
proof (induction cs arbitrary: r)
  case Nil
  then show ?case by simp
next
  case (Cons c cs)
  from Cons.prems have c: "c \<noteq> quotechar" "c \<noteq> 10" "c \<noteq> 13" and cs: "unquoted cs"
    and len: "int (length (field r)) < field_limit"
    by (simp_all add: unquoted_def)
  from process_unquoted_char [OF Cons.prems(1) c len, of cs] obtain r1 where
    r1: "parse_process_char r (Ch c) = Inr r1" "in_field r1"
      "row_fields r1 @ split_fields (field r1) cs = row_fields r @ split_fields (field r) (c # cs)"
      "length (field r1) \<le> Suc (length (field r))"
    by blast
  have "int (length (field r1)) + int (length cs) \<le> field_limit"
    using r1(4) Cons.prems(3) by simp
  from Cons.IH [OF r1(2) cs this] r1(1,3) show ?case
    by auto
qed

lemma process_line_unquoted:
  assumes "unquoted body" "int (length body) \<le> field_limit" "l = body \<or> l = body @ [10]"
  shows "\<exists>r. process_line parse_reset l = Inr r \<and> state r = START_RECORD \<and>
     row_fields r = (if body = [] then [] else split_fields [] body)"
proof (cases body)
  case Nil
  with assms(3) show ?thesis
    by (auto simp: process_line_def parse_process_char_def parse_reset_def)
next
  case (Cons c cs)
  define r0 where "r0 = parse_reset\<lparr>state := START_FIELD\<rparr>"
  have r0: "in_field r0" "field r0 = []" "row_fields r0 = []"
    by (simp_all add: r0_def in_field_def parse_reset_def)
  have c: "c \<noteq> 10" "c \<noteq> 13"
    using assms(1) Cons by (simp_all add: unquoted_def)
  have first: "parse_process_char parse_reset (Ch c) = parse_process_char r0 (Ch c)"
    using c by (simp add: parse_process_char_def parse_reset_def r0_def)
  have start: "process_chars parse_reset (body @ s) = process_chars r0 (body @ s)" for s
    by (simp add: Cons first)
  from process_unquoted_chars [OF r0(1) assms(1)] assms(2) r0(2,3) obtain r' where
    r': "process_chars r0 body = Inr r'" "in_field r'"
      "row_fields r' @ [field r'] = split_fields [] body"
    by auto
  have app: "process_chars r0 (body @ s) = process_chars r' s" for s
    using r'(1)
  proof (induction body arbitrary: r0)
    case Nil
    then show ?case by simp
  next
    case (Cons a body)
    then show ?case by (auto split: sum.splits)
  qed
  from assms(3) show ?thesis
  proof
    assume "l = body"
    then have "process_line parse_reset l = parse_process_char r' EOL"
      using start [of "[]"] r'(1) by (simp add: process_line_def)
    with r'(2,3) Cons show ?thesis
      by (auto simp: in_field_def parse_process_char_def process_START_FIELD_def
          parse_save_field_def)
  next
    assume "l = body @ [10]"
    then have "process_line parse_reset l =
        (case parse_process_char r' (Ch 10) of Inl e \<Rightarrow> Inl e | Inr r'' \<Rightarrow> parse_process_char r'' EOL)"
      using start [of "[10]"] app [of "[10]"] by (simp add: process_line_def split: sum.splits)
    with r'(2,3) Cons show ?thesis
      by (auto simp: in_field_def parse_process_char_def process_START_FIELD_def
          parse_save_field_def)
  qed
qed

lemma split_fields_no_delimiter:
  "delimiter \<notin> set cs \<Longrightarrow> split_fields cur cs = [cur @ cs]"
  by (induction cs arbitrary: cur) auto

lemma takeWhile_no_delimiter:
  "delimiter \<notin> set cs \<Longrightarrow> takeWhile (\<lambda>c. c \<noteq> delimiter) cs = cs"
  by (induction cs) auto

lemma split_fields_key:
  "delimiter \<in> set cs \<Longrightarrow>
   \<exists>more. split_fields cur cs =
     (cur @ takeWhile (\<lambda>c. c \<noteq> delimiter) cs)
     # takeWhile (\<lambda>c. c \<noteq> delimiter) (drop 1 (dropWhile (\<lambda>c. c \<noteq> delimiter) cs)) # more"
proof (induction cs arbitrary: cur)
  case Nil
  then show ?case by simp
next
  case (Cons c cs)
  show ?case
  proof (cases "c = delimiter")
    case True
    show ?thesis
    proof (cases "delimiter \<in> set cs")
      case True
      from Cons.IH [OF this, of "[]"] \<open>c = delimiter\<close> show ?thesis by auto
    next
      case False
      with \<open>c = delimiter\<close> show ?thesis
        by (simp add: split_fields_no_delimiter takeWhile_no_delimiter)
    qed
  next
    case False
    with Cons.prems have "delimiter \<in> set cs" by simp
    from Cons.IH [OF this, of "cur @ [c]"] False show ?thesis by auto
  qed
qed

lemma parse_row_split:
  "parse_row (if body = [] then [] else split_fields [] body) =
     (if delimiter \<notin> set body then Inl IndexError
      else case PyFloat_FromString (value_field body) of
             Inl e \<Rightarrow> Inl e
           | Inr x \<Rightarrow> Inr (key_field body, x))"
proof (cases "delimiter \<in> set body")
  case True
  then have ne: "body \<noteq> []" by auto
  from split_fields_key [OF True, of "[]"] obtain more where
    "split_fields [] body = key_field body # value_field body # more"
    by (auto simp: key_field_def value_field_def)
  with True ne show ?thesis
    by (simp add: parse_row_def list_index_def split: sum.splits)
next
  case False
  then show ?thesis
    by (simp add: parse_row_def list_index_def split_fields_no_delimiter)
qed

lemma parse_line_unquoted:
  assumes "unquoted body" and "int (length body) \<le> field_limit"
    and "l = body \<or> l = body @ [10]"
  shows "parse_line l =
     (if delimiter \<notin> set body then ParseError IndexError
      else case PyFloat_FromString (value_field body) of
             Inl e \<Rightarrow> ParseError e
           | Inr x \<Rightarrow> Record (key_field body) x)"
proof -
  from process_line_unquoted [OF assms] obtain r where
    r: "process_line parse_reset l = Inr r" "state r = START_RECORD"
      "row_fields r = (if body = [] then [] else split_fields [] body)"
    by blast
  have "parse_line l = (case parse_row (row_fields r) of
      Inl e \<Rightarrow> ParseError e | Inr (k, v) \<Rightarrow> Record k v)"
    using r(1,2) by (simp add: parse_line_def)
  then show ?thesis
    unfolding r(3) parse_row_split by (simp split: sum.splits)
qed

lemma line_body_cases: "l = line_body l \<or> l = line_body l @ [10]"
  by (auto simp: line_body_def) (metis append_butlast_last_id)

lemma parse_line_plain:
  assumes "plain_line l"
  shows "parse_line l =
     (if delimiter \<notin> set (line_body l) then ParseError IndexError
      else case PyFloat_FromString (value_field (line_body l)) of
             Inl e \<Rightarrow> ParseError e
           | Inr x \<Rightarrow> Record (key_field (line_body l)) x)"
  using assms parse_line_unquoted [OF _ _ line_body_cases [of l]]
  by (simp add: plain_line_def)

lemma ingest_rows_plain:
  assumes "plain_line l"
  shows "ingest_rows (l # ls) t =
     (if delimiter \<notin> set (line_body l) then Inl (IndexError, t)
      else case PyFloat_FromString (value_field (line_body l)) of
             Inl e \<Rightarrow> Inl (e, t)
           | Inr x \<Rightarrow> ingest_rows ls (ingest (key_field (line_body l)) x t))"
proof (cases "parse_line l")
  case (Record k v)
  from ingest_rows_Record [OF this] Record show ?thesis
    unfolding parse_line_plain [OF assms] by (auto split: if_splits sum.splits)
next
  case (ParseError e)
  from ingest_rows_ParseError [OF this] ParseError show ?thesis
    unfolding parse_line_plain [OF assms] by (auto split: if_splits sum.splits)
next
  case Continues
  then show ?thesis
    unfolding parse_line_plain [OF assms] by (auto split: if_splits sum.splits)
qed

lemma ingest_rows_accepted:
  assumes "list_all accepted_line pre"
  shows "\<exists>T. ingest_rows pre t = Inr T \<and> (\<forall>ls. ingest_rows (pre @ ls) t = ingest_rows ls T)"
  using assms
proof (induction pre arbitrary: t)
  case Nil
  show ?case by (simp add: ingest_rows_end [OF Reader_iternext_Nil])
next
  case (Cons p pre)
  from Cons.prems have acc: "accepted_line p" and rest: "list_all accepted_line pre"
    by simp_all
  from acc have p: "plain_line p" "delimiter \<in> set (line_body p)"
    by (simp_all add: accepted_line_def)
  from acc obtain x where x: "PyFloat_FromString (value_field (line_body p)) = Inr x"
    by (auto simp: accepted_line_def split: sum.splits)
  have step: "ingest_rows (p # ls) t = ingest_rows ls (ingest (key_field (line_body p)) x t)" for ls
    by (simp add: ingest_rows_plain [OF p(1)] p(2) x)
  from Cons.IH [OF rest, of "ingest (key_field (line_body p)) x t"] show ?case
    by (simp add: step)
qed

lemma scenario_1_accepted: "list_all accepted_line scenario_1"
  by code_simp




lemma takeWhile_before_delimiter:
  "delimiter \<notin> set k \<Longrightarrow> takeWhile (\<lambda>c. c \<noteq> delimiter) (k @ delimiter # rest) = k"
  by (induction k) auto

lemma dropWhile_before_delimiter:
  "delimiter \<notin> set k \<Longrightarrow>
   dropWhile (\<lambda>c. c \<noteq> delimiter) (k @ delimiter # rest) = delimiter # rest"
  by (induction k) auto

lemma fields_of_body:
  assumes "body = k @ delimiter # v @ tail" "delimiter \<notin> set k" "delimiter \<notin> set v"
    "tail = [] \<or> (\<exists>rest. tail = delimiter # rest)"
  shows "delimiter \<in> set body" "key_field body = k" "value_field body = v"
proof -
  show "delimiter \<in> set body" using assms(1) by simp
  show "key_field body = k"
    using assms(1,2) by (simp add: key_field_def takeWhile_before_delimiter)
  have "dropWhile (\<lambda>c. c \<noteq> delimiter) body = delimiter # v @ tail"
    using assms(1,2) by (simp add: dropWhile_before_delimiter)
  then show "value_field body = v"
    using assms(3,4)
    by (auto simp: value_field_def takeWhile_before_delimiter takeWhile_no_delimiter)
qed

text \<open>
  C4, as amended. Let the lines \<open>pre\<close> be plain lines that each have a delimiter and a
  value field that \<^verbatim>\<open>float\<close> accepts, and let the plain line \<open>l\<close> follow them in the
  file; the loop over \<open>pre\<close> alone leaves the tables \<open>T\<close>. The reader splits \<open>l\<close> at
  every delimiter: when \<open>l\<close> is \<open>k;v\<close> or \<open>k;v;more\<close>, where \<open>k\<close> and \<open>v\<close> have
  no delimiter, the key is \<open>k\<close> and the numeric reading is \<open>v\<close> alone. Whatever follows
  a second delimiter is ignored: the line fails only when \<^verbatim>\<open>float\<close> rejects \<open>v\<close>, and
  otherwise the loop ingests the record of \<open>k\<close> and \<open>v\<close> into \<open>T\<close> and goes on.
\<close>

theorem value_ends_at_second_delimiter:
  assumes "list_all accepted_line pre" and "plain_line l"
    and "line_body l = k @ delimiter # v @ tail"
    and "delimiter \<notin> set k" and "delimiter \<notin> set v"
    and "tail = [] \<or> (\<exists>more. tail = delimiter # more)"
  shows "\<exists>T. ingest_rows pre t = Inr T \<and>
     parse_line l =
       (case PyFloat_FromString v of Inl e \<Rightarrow> ParseError e | Inr x \<Rightarrow> Record k x) \<and>
     ingest_rows (pre @ l # rest) t =
       (case PyFloat_FromString v of
          Inl e \<Rightarrow> Inl (e, T)
        | Inr x \<Rightarrow> ingest_rows rest (ingest k x T))"
proof -
  from ingest_rows_accepted [OF assms(1), of t] obtain T where
    T: "ingest_rows pre t = Inr T" "\<And>ls. ingest_rows (pre @ ls) t = ingest_rows ls T"
    by blast
  note f = fields_of_body [OF assms(3,4,5,6)]
  show ?thesis
    using T(1) parse_line_plain [OF assms(2)] ingest_rows_plain [OF assms(2), of rest T]
    by (intro exI [of _ T]) (simp only: T(2) f simp_thms if_False)
qed

text \<open>The theorem after the three lines of scenario 1, at the line \<^verbatim>\<open>A;1.0;2.0\<close>.\<close>

theorem value_ends_at_second_delimiter_witness:
  "list_all accepted_line scenario_1
   \<and> plain_line (str ''A;1.0;2.0'' @ [10])
   \<and> line_body (str ''A;1.0;2.0'' @ [10]) = str ''A'' @ delimiter # str ''1.0'' @ delimiter # str ''2.0''
   \<and> delimiter \<notin> set (str ''A'') \<and> delimiter \<notin> set (str ''1.0'')
   \<and> PyFloat_FromString (str ''1.0'') = Inr (Finite False 1 0)
   \<and> parse_line (str ''A;1.0;2.0'' @ [10]) = Record (str ''A'') (Finite False 1 0)
   \<and> ingest_rows (scenario_1 @ [str ''A;1.0;2.0'' @ [10]]) empty_tables =
       Inr (ingest (str ''A'') (Finite False 1 0)
         \<lparr>minimas = [str ''A'' \<mapsto> Finite False 5 1, str ''B'' \<mapsto> Finite True 11 (- 1)],
          maximas = [str ''A'' \<mapsto> Finite False 5 2, str ''B'' \<mapsto> Finite True 11 (- 1)],
          somas = [str ''A'' \<mapsto> Finite False 15 1, str ''B'' \<mapsto> Finite True 11 (- 1)],
          medicoes = [(str ''A'', 2), (str ''B'', 1)]\<rparr>)"
proof -
  have h: "plain_line (str ''A;1.0;2.0'' @ [10])"
    "line_body (str ''A;1.0;2.0'' @ [10]) = str ''A'' @ delimiter # str ''1.0'' @ delimiter # str ''2.0''"
    "delimiter \<notin> set (str ''A'')" "delimiter \<notin> set (str ''1.0'')"
    "PyFloat_FromString (str ''1.0'') = Inr (Finite False 1 0)"
    by code_simp+
  from value_ends_at_second_delimiter [OF scenario_1_accepted h(1,2,3,4), of empty_tables "[]"]
  have 1: "parse_line (str ''A;1.0;2.0'' @ [10]) = Record (str ''A'') (Finite False 1 0)"
    "ingest_rows (scenario_1 @ [str ''A;1.0;2.0'' @ [10]]) empty_tables =
       Inr (ingest (str ''A'') (Finite False 1 0)
         \<lparr>minimas = [str ''A'' \<mapsto> Finite False 5 1, str ''B'' \<mapsto> Finite True 11 (- 1)],
          maximas = [str ''A'' \<mapsto> Finite False 5 2, str ''B'' \<mapsto> Finite True 11 (- 1)],
          somas = [str ''A'' \<mapsto> Finite False 15 1, str ''B'' \<mapsto> Finite True 11 (- 1)],
          medicoes = [(str ''A'', 2), (str ''B'', 1)]\<rparr>)"
    by (auto simp: h(5) scenario_1_tables ingest_rows_end [OF Reader_iternext_Nil])
  show ?thesis
    by (rule conjI scenario_1_accepted h 1)+
qed

text \<open>
  C4 as stated fails on its own example: the line \<^verbatim>\<open>A;1.0;2.0\<close> gives the record of
  \<^verbatim>\<open>A\<close> and 1.0, which the loop ingests, although the whole remainder
  \<^verbatim>\<open>1.0;2.0\<close> is no float literal.
\<close>

theorem second_delimiter_no_error:
  "parse_line (str ''A;1.0;2.0'' @ [10]) = Record (str ''A'') (Finite False 1 0)
   \<and> PyFloat_FromString (str ''1.0;2.0'') = Inl ValueError
   \<and> ingest_rows [str ''A;1.0;2.0'' @ [10]] empty_tables =
       Inr (ingest (str ''A'') (Finite False 1 0) empty_tables)"
proof -
  have l: "parse_line (str ''A;1.0;2.0'' @ [10]) = Record (str ''A'') (Finite False 1 0)"
    "PyFloat_FromString (str ''1.0;2.0'') = Inl ValueError"
    by code_simp+
  show ?thesis
    by (simp add: l ingest_rows_Record [OF l(1)] ingest_rows_end [OF Reader_iternext_Nil])
qed

lemma float_add_NaN: "float_add x NaN = NaN"
  by (cases x) simp_all

lemma float_lt_NaN: "\<not> float_lt x NaN" "\<not> float_lt NaN x"
  by (cases x; simp)+

text \<open>
  C7, as amended. Let the lines \<open>pre\<close> be plain lines that each have a delimiter and a
  value field that \<^verbatim>\<open>float\<close> accepts, and let the plain line \<open>l\<close> follow them in the
  file; the loop over \<open>pre\<close> alone leaves the tables \<open>T\<close>. When \<open>l\<close> has a delimiter
  and \<^verbatim>\<open>float\<close> reads its value field as a NaN, the parse step gives the record of the
  key and the NaN, and the loop passes it to the update of \<open>T\<close> and goes on: the count of
  the key goes up by one, its minimum and maximum stay what they were (the infinities,
  for a new key), and its sum becomes a NaN.
\<close>

theorem nan_value_is_ingested:
  assumes "list_all accepted_line pre" and "plain_line l"
    and "delimiter \<in> set (line_body l)"
    and "PyFloat_FromString (value_field (line_body l)) = Inr NaN"
  shows "\<exists>T. ingest_rows pre t = Inr T \<and>
     parse_line l = Record (key_field (line_body l)) NaN \<and>
     ingest_rows (pre @ l # rest) t = ingest_rows rest (ingest (key_field (line_body l)) NaN T) \<and>
     map_of (medicoes (ingest (key_field (line_body l)) NaN T)) (key_field (line_body l)) =
       Some (dict_get (medicoes T) (key_field (line_body l)) 0 + 1) \<and>
     minimas (ingest (key_field (line_body l)) NaN T) (key_field (line_body l)) =
       Some (dd_value (minimas T) (Infinity False) (key_field (line_body l))) \<and>
     maximas (ingest (key_field (line_body l)) NaN T) (key_field (line_body l)) =
       Some (dd_value (maximas T) (Infinity True) (key_field (line_body l))) \<and>
     somas (ingest (key_field (line_body l)) NaN T) (key_field (line_body l)) = Some NaN"
proof -
  from ingest_rows_accepted [OF assms(1), of t] obtain T where
    T: "ingest_rows pre t = Inr T" "\<And>ls. ingest_rows (pre @ ls) t = ingest_rows ls T"
    by blast
  have p: "parse_line l = Record (key_field (line_body l)) NaN"
    unfolding parse_line_plain [OF assms(2)] using assms(3,4) by simp
  have "ingest_rows (pre @ l # rest) t = ingest_rows rest (ingest (key_field (line_body l)) NaN T)"
    unfolding T(2) by (rule ingest_rows_Record [OF p])
  with T(1) p show ?thesis
    by (intro exI [of _ T])
      (simp add: ingest_same_key py_min_def py_max_def float_add_NaN float_lt_NaN)
qed

text \<open>The theorem after the three lines of scenario 1, at the line \<^verbatim>\<open>A;nan\<close>.\<close>

theorem nan_value_is_ingested_witness:
  "list_all accepted_line scenario_1
   \<and> plain_line (str ''A;nan'' @ [10])
   \<and> delimiter \<in> set (line_body (str ''A;nan'' @ [10]))
   \<and> key_field (line_body (str ''A;nan'' @ [10])) = str ''A''
   \<and> PyFloat_FromString (value_field (line_body (str ''A;nan'' @ [10]))) = Inr NaN
   \<and> parse_line (str ''A;nan'' @ [10]) = Record (str ''A'') NaN
   \<and> ingest_rows (scenario_1 @ [str ''A;nan'' @ [10]]) empty_tables =
       Inr \<lparr>minimas = [str ''A'' \<mapsto> Finite False 5 1, str ''B'' \<mapsto> Finite True 11 (- 1)],
            maximas = [str ''A'' \<mapsto> Finite False 5 2, str ''B'' \<mapsto> Finite True 11 (- 1)],
            somas = [str ''A'' \<mapsto> NaN, str ''B'' \<mapsto> Finite True 11 (- 1)],
            medicoes = [(str ''A'', 3), (str ''B'', 1)]\<rparr>"
proof -
  have h: "plain_line (str ''A;nan'' @ [10])"
    "delimiter \<in> set (line_body (str ''A;nan'' @ [10]))"
    "PyFloat_FromString (value_field (line_body (str ''A;nan'' @ [10]))) = Inr NaN"
    "key_field (line_body (str ''A;nan'' @ [10])) = str ''A''"
    by code_simp+
  have t: "ingest (str ''A'') NaN
      \<lparr>minimas = [str ''A'' \<mapsto> Finite False 5 1, str ''B'' \<mapsto> Finite True 11 (- 1)],
       maximas = [str ''A'' \<mapsto> Finite False 5 2, str ''B'' \<mapsto> Finite True 11 (- 1)],
       somas = [str ''A'' \<mapsto> Finite False 15 1, str ''B'' \<mapsto> Finite True 11 (- 1)],
       medicoes = [(str ''A'', 2), (str ''B'', 1)]\<rparr> =
      \<lparr>minimas = [str ''A'' \<mapsto> Finite False 5 1, str ''B'' \<mapsto> Finite True 11 (- 1)],
       maximas = [str ''A'' \<mapsto> Finite False 5 2, str ''B'' \<mapsto> Finite True 11 (- 1)],
       somas = [str ''A'' \<mapsto> NaN, str ''B'' \<mapsto> Finite True 11 (- 1)],
       medicoes = [(str ''A'', 3), (str ''B'', 1)]\<rparr>"
    by (auto simp: ingest_def counter_update_def dict_get_def defaultdict_getitem_def
        py_min_def py_max_def str_A_B fun_eq_iff)
  from nan_value_is_ingested [OF scenario_1_accepted h(1,2,3), of empty_tables "[]"]
  have 1: "parse_line (str ''A;nan'' @ [10]) = Record (str ''A'') NaN"
    "ingest_rows (scenario_1 @ [str ''A;nan'' @ [10]]) empty_tables =
       Inr \<lparr>minimas = [str ''A'' \<mapsto> Finite False 5 1, str ''B'' \<mapsto> Finite True 11 (- 1)],
            maximas = [str ''A'' \<mapsto> Finite False 5 2, str ''B'' \<mapsto> Finite True 11 (- 1)],
            somas = [str ''A'' \<mapsto> NaN, str ''B'' \<mapsto> Finite True 11 (- 1)],
            medicoes = [(str ''A'', 3), (str ''B'', 1)]\<rparr>"
    by (auto simp: h(4) scenario_1_tables ingest_rows_end [OF Reader_iternext_Nil] t)
  show ?thesis
    by (rule conjI scenario_1_accepted h 1)+
qed

text \<open>
  C7 as stated fails on the line \<^verbatim>\<open>A;nan\<close>: \<^verbatim>\<open>float\<close> accepts \<^verbatim>\<open>nan\<close>, the parse
  step gives the record of \<^verbatim>\<open>A\<close> and a NaN, and the loop ingests it.
\<close>

theorem nan_line_is_parsed:
  "parse_line (str ''A;nan'' @ [10]) = Record (str ''A'') NaN
   \<and> PyFloat_FromString (str ''nan'') = Inr NaN
   \<and> ingest_rows [str ''A;nan'' @ [10]] empty_tables = Inr (ingest (str ''A'') NaN empty_tables)"
proof -
  have l: "parse_line (str ''A;nan'' @ [10]) = Record (str ''A'') NaN"
    "PyFloat_FromString (str ''nan'') = Inr NaN"
    by code_simp+
  show ?thesis
    by (simp add: l ingest_rows_Record [OF l(1)] ingest_rows_end [OF Reader_iternext_Nil])
qed

subsection \<open>A malformed line\<close>

text \<open>
  C8, as amended. Let every line of \<open>good\<close> give a record, and let the plain line
  \<open>bad\<close> have no delimiter, or a value field that \<^verbatim>\<open>float\<close> rejects. Then the parse
  step raises on \<open>bad\<close> (\<^verbatim>\<open>IndexError\<close> from \<^verbatim>\<open>row[1]\<close> without a delimiter,
  \<^verbatim>\<open>ValueError\<close> from \<^verbatim>\<open>float\<close> otherwise), the loop over \<open>good\<close>, \<open>bad\<close> and any
  further lines ends with that exception, and the tables are then exactly those that the
  loop over \<open>good\<close> alone leaves: the tables before the malformed line was read. The
  line \<^verbatim>\<open>X\<close> is such a line: it has no delimiter.
\<close>

theorem malformed_line_leaves_tables:
  assumes "\<forall>l\<in>set good. \<exists>k v. parse_line l = Record k v"
    and "plain_line bad"
    and "delimiter \<notin> set (line_body bad) \<or>
         PyFloat_FromString (value_field (line_body bad)) = Inl ValueError"
  shows "ingest_rows good t = Inr (ingest_all (records_of good) t) \<and>
         parse_line bad =
           ParseError (if delimiter \<in> set (line_body bad) then ValueError else IndexError) \<and>
         ingest_rows (good @ bad # rest) t =
           Inl (if delimiter \<in> set (line_body bad) then ValueError else IndexError,
                ingest_all (records_of good) t) \<and>
         parse_line (str ''X'' @ [10]) = ParseError IndexError \<and>
         ingest_rows (good @ (str ''X'' @ [10]) # rest) t =
           Inl (IndexError, ingest_all (records_of good) t)"
proof -
  have bad: "parse_line bad =
      ParseError (if delimiter \<in> set (line_body bad) then ValueError else IndexError)"
    unfolding parse_line_plain [OF assms(2)] using assms(3) by auto
  have loop: "ingest_rows good t = Inr (ingest_all (records_of good) t) \<and>
      (\<forall>b e. parse_line b = ParseError e \<longrightarrow>
         ingest_rows (good @ b # rest) t = Inl (e, ingest_all (records_of good) t))"
    using assms(1)
  proof (induction good arbitrary: t)
    case Nil
    show ?case
      by (simp add: records_of_def ingest_rows_end [OF Reader_iternext_Nil] ingest_rows_ParseError
          ingest_all_def)
  next
    case (Cons l good)
    then obtain k v where l: "parse_line l = Record k v" by auto
    from Cons.prems have "\<forall>l\<in>set good. \<exists>k v. parse_line l = Record k v" by simp
    from Cons.IH [OF this, of "ingest k v t"] show ?case
      using l by (simp add: ingest_rows_Record [OF l] records_of_def ingest_all_def)
  qed
  from loop bad line_X(2) show ?thesis
    by simp
qed

text \<open>
  The theorem after the three lines of scenario 1, at the line \<^verbatim>\<open>X\<close> and at the line
  \<^verbatim>\<open>B;1,5\<close>, each followed by the line \<^verbatim>\<open>C;1.0\<close>.
\<close>

theorem malformed_line_leaves_tables_witness:
  "parse_line (str ''A;10.0'' @ [10]) = Record (str ''A'') (Finite False 5 1)
   \<and> parse_line (str ''A;20.0'' @ [10]) = Record (str ''A'') (Finite False 5 2)
   \<and> parse_line (str ''B;-5.5'' @ [10]) = Record (str ''B'') (Finite True 11 (- 1))
   \<and> plain_line (str ''X'' @ [10])
   \<and> delimiter \<notin> set (line_body (str ''X'' @ [10]))
   \<and> parse_line (str ''X'' @ [10]) = ParseError IndexError
   \<and> ingest_rows scenario_1 empty_tables = Inr (ingest_all (records_of scenario_1) empty_tables)
   \<and> ingest_rows (scenario_1 @ [str ''X'' @ [10], str ''C;1.0'' @ [10]]) empty_tables =
       Inl (IndexError, ingest_all (records_of scenario_1) empty_tables)
   \<and> plain_line (str ''B;1,5'' @ [10])
   \<and> delimiter \<in> set (line_body (str ''B;1,5'' @ [10]))
   \<and> PyFloat_FromString (value_field (line_body (str ''B;1,5'' @ [10]))) = Inl ValueError
   \<and> ingest_rows (scenario_1 @ [str ''B;1,5'' @ [10], str ''C;1.0'' @ [10]]) empty_tables =
       Inl (ValueError, ingest_all (records_of scenario_1) empty_tables)"
proof -
  have g: "parse_line (str ''A;10.0'' @ [10]) = Record (str ''A'') (Finite False 5 1)"
    "parse_line (str ''A;20.0'' @ [10]) = Record (str ''A'') (Finite False 5 2)"
    "parse_line (str ''B;-5.5'' @ [10]) = Record (str ''B'') (Finite True 11 (- 1))"
    by code_simp+
  then have good: "\<forall>l\<in>set scenario_1. \<exists>k v. parse_line l = Record k v"
    by (simp add: scenario_1_def)
  have x: "plain_line (str ''X'' @ [10])" "delimiter \<notin> set (line_body (str ''X'' @ [10]))"
    by code_simp+
  have b: "plain_line (str ''B;1,5'' @ [10])"
    "delimiter \<in> set (line_body (str ''B;1,5'' @ [10]))"
    "PyFloat_FromString (value_field (line_body (str ''B;1,5'' @ [10]))) = Inl ValueError"
    by code_simp+
  from malformed_line_leaves_tables [OF good x(1), of empty_tables "[str ''C;1.0'' @ [10]]"] x(2)
  have 1: "parse_line (str ''X'' @ [10]) = ParseError IndexError"
    "ingest_rows scenario_1 empty_tables = Inr (ingest_all (records_of scenario_1) empty_tables)"
    "ingest_rows (scenario_1 @ [str ''X'' @ [10], str ''C;1.0'' @ [10]]) empty_tables =
       Inl (IndexError, ingest_all (records_of scenario_1) empty_tables)"
    by simp_all
  from malformed_line_leaves_tables [OF good b(1), of empty_tables "[str ''C;1.0'' @ [10]]"] b(2,3)
  have 2: "ingest_rows (scenario_1 @ [str ''B;1,5'' @ [10], str ''C;1.0'' @ [10]]) empty_tables =
       Inl (ValueError, ingest_all (records_of scenario_1) empty_tables)"
    by simp
  show ?thesis
    by (rule conjI g x b 1 2)+
qed

lemma str_empty_A_B: "[] \<noteq> str ''A''" "[] \<noteq> str ''B''" "str ''A'' \<noteq> []" "str ''B'' \<noteq> []"
  by (simp_all add: str_def)

text \<open>
  C8 as stated fails on two kinds of line that the spec calls malformed. After the three
  lines of scenario 1, the line \<^verbatim>\<open>;1.0\<close>, whose key is empty, raises nothing and adds
  the empty key with the count 1; the line \<^verbatim>\<open>A;nan\<close>, whose value is a NaN, raises
  nothing, takes the count of \<^verbatim>\<open>A\<close> from 2 to 3 and makes its sum a NaN.
\<close>

theorem malformed_lines_are_ingested:
  "ingest_rows scenario_1 empty_tables =
     Inr \<lparr>minimas = [str ''A'' \<mapsto> Finite False 5 1, str ''B'' \<mapsto> Finite True 11 (- 1)],
          maximas = [str ''A'' \<mapsto> Finite False 5 2, str ''B'' \<mapsto> Finite True 11 (- 1)],
          somas = [str ''A'' \<mapsto> Finite False 15 1, str ''B'' \<mapsto> Finite True 11 (- 1)],
          medicoes = [(str ''A'', 2), (str ''B'', 1)]\<rparr>
   \<and> key_field (str '';1.0'') = []
   \<and> ingest_rows (scenario_1 @ [str '';1.0'' @ [10]]) empty_tables =
     Inr \<lparr>minimas = [str ''A'' \<mapsto> Finite False 5 1, str ''B'' \<mapsto> Finite True 11 (- 1),
                     [] \<mapsto> Finite False 1 0],
          maximas = [str ''A'' \<mapsto> Finite False 5 2, str ''B'' \<mapsto> Finite True 11 (- 1),
                     [] \<mapsto> Finite False 1 0],
          somas = [str ''A'' \<mapsto> Finite False 15 1, str ''B'' \<mapsto> Finite True 11 (- 1),
                   [] \<mapsto> Finite False 1 0],
          medicoes = [(str ''A'', 2), (str ''B'', 1), ([], 1)]\<rparr>
   \<and> PyFloat_FromString (str ''nan'') = Inr NaN
   \<and> ingest_rows (scenario_1 @ [str ''A;nan'' @ [10]]) empty_tables =
     Inr \<lparr>minimas = [str ''A'' \<mapsto> Finite False 5 1, str ''B'' \<mapsto> Finite True 11 (- 1)],
          maximas = [str ''A'' \<mapsto> Finite False 5 2, str ''B'' \<mapsto> Finite True 11 (- 1)],
          somas = [str ''A'' \<mapsto> NaN, str ''B'' \<mapsto> Finite True 11 (- 1)],
          medicoes = [(str ''A'', 3), (str ''B'', 1)]\<rparr>"
proof -
  have e: "parse_line (str '';1.0'' @ [10]) = Record [] (Finite False 1 0)"
    "parse_line (str ''A;nan'' @ [10]) = Record (str ''A'') NaN"
    "key_field (str '';1.0'') = []"
    "PyFloat_FromString (str ''nan'') = Inr NaN"
    by code_simp+
  have f: "py_min (Infinity False) (Finite False 1 0) = Finite False 1 0"
    "py_max (Infinity True) (Finite False 1 0) = Finite False 1 0"
    "float_add (Finite False 0 0) (Finite False 1 0) = Finite False 1 0"
    by code_simp+
  from ingest_rows_accepted [OF scenario_1_accepted, of empty_tables]
  have app: "ingest_rows (scenario_1 @ ls) empty_tables =
      ingest_rows ls
        \<lparr>minimas = [str ''A'' \<mapsto> Finite False 5 1, str ''B'' \<mapsto> Finite True 11 (- 1)],
         maximas = [str ''A'' \<mapsto> Finite False 5 2, str ''B'' \<mapsto> Finite True 11 (- 1)],
         somas = [str ''A'' \<mapsto> Finite False 15 1, str ''B'' \<mapsto> Finite True 11 (- 1)],
         medicoes = [(str ''A'', 2), (str ''B'', 1)]\<rparr>" for ls
    by (auto simp: scenario_1_tables)
  have 1: "ingest_rows (scenario_1 @ [str '';1.0'' @ [10]]) empty_tables =
     Inr \<lparr>minimas = [str ''A'' \<mapsto> Finite False 5 1, str ''B'' \<mapsto> Finite True 11 (- 1),
                     [] \<mapsto> Finite False 1 0],
          maximas = [str ''A'' \<mapsto> Finite False 5 2, str ''B'' \<mapsto> Finite True 11 (- 1),
                     [] \<mapsto> Finite False 1 0],
          somas = [str ''A'' \<mapsto> Finite False 15 1, str ''B'' \<mapsto> Finite True 11 (- 1),
                   [] \<mapsto> Finite False 1 0],
          medicoes = [(str ''A'', 2), (str ''B'', 1), ([], 1)]\<rparr>"
    unfolding app ingest_rows_Record [OF e(1)] ingest_rows_end [OF Reader_iternext_Nil]
    by (simp add: ingest_def counter_update_def dict_get_def defaultdict_getitem_def
        f str_empty_A_B str_A_B del: float_add.simps)
  have 2: "ingest_rows (scenario_1 @ [str ''A;nan'' @ [10]]) empty_tables =
     Inr \<lparr>minimas = [str ''A'' \<mapsto> Finite False 5 1, str ''B'' \<mapsto> Finite True 11 (- 1)],
          maximas = [str ''A'' \<mapsto> Finite False 5 2, str ''B'' \<mapsto> Finite True 11 (- 1)],
          somas = [str ''A'' \<mapsto> NaN, str ''B'' \<mapsto> Finite True 11 (- 1)],
          medicoes = [(str ''A'', 3), (str ''B'', 1)]\<rparr>"
    unfolding app ingest_rows_Record [OF e(2)] ingest_rows_end [OF Reader_iternext_Nil]
    by (auto simp: ingest_def counter_update_def dict_get_def defaultdict_getitem_def
        py_min_def py_max_def str_A_B fun_eq_iff)
  show ?thesis
    by (rule conjI scenario_1_tables e(3,4) 1 2)+
qed

subsection \<open>The order of the output\<close>

lemma diverges_Cons_less: "x < y \<Longrightarrow> diverges (x # r1) (y # r2)"
  unfolding diverges_def by (intro exI [of _ "[]"]) auto

lemma diverges_Cons_eq: "diverges xs ys \<Longrightarrow> diverges (z # xs) (z # ys)"
  unfolding diverges_def by (metis append_Cons)

lemma diverges_append: "diverges xs ys \<Longrightarrow> diverges (xs @ s1) (ys @ s2)"
  unfolding diverges_def by (metis append_Cons append_assoc)

lemma diverges_less: "diverges xs ys \<Longrightarrow> xs < ys"
  unfolding diverges_def list_less_def by (auto intro: lexord_append_left_rightI)

lemma divmod64:
  fixes c :: int
  shows "c = 64 * (c div 64) + c mod 64" "0 \<le> c mod 64" "c mod 64 < 64"
  by simp_all

lemma lex64:
  fixes a b :: int
  assumes "a < b"
  shows "a div 64 < b div 64 \<or> (a div 64 = b div 64 \<and> a mod 64 < b mod 64)"
  using divmod64 [of a] divmod64 [of b] assms by linarith

lemma diverges2:
  fixes h l :: int
  assumes "x1 < y1 \<or> (x1 = y1 \<and> x0 < y0)"
  shows "diverges [h + x1, l + x0] [h + y1, l + y0]"
  using assms
proof
  assume "x1 < y1"
  then show ?thesis by (simp add: diverges_Cons_less)
next
  assume "x1 = y1 \<and> x0 < y0"
  then show ?thesis by (simp add: diverges_Cons_eq diverges_Cons_less)
qed

lemma diverges3:
  fixes h l :: int
  assumes "x2 < y2 \<or> (x2 = y2 \<and> (x1 < y1 \<or> (x1 = y1 \<and> x0 < y0)))"
  shows "diverges [h + x2, l + x1, l + x0] [h + y2, l + y1, l + y0]"
  using assms
proof
  assume "x2 < y2"
  then show ?thesis by (simp add: diverges_Cons_less)
next
  assume "x2 = y2 \<and> (x1 < y1 \<or> (x1 = y1 \<and> x0 < y0))"
  then show ?thesis
    using diverges_Cons_eq [OF diverges2 [of x1 y1 x0 y0 l l], of "h + y2"] by simp
qed

lemma diverges4:
  fixes h l :: int
  assumes "x3 < y3 \<or> (x3 = y3 \<and> (x2 < y2 \<or> (x2 = y2 \<and> (x1 < y1 \<or> (x1 = y1 \<and> x0 < y0)))))"
  shows "diverges [h + x3, l + x2, l + x1, l + x0] [h + y3, l + y2, l + y1, l + y0]"
  using assms
proof
  assume "x3 < y3"
  then show ?thesis by (simp add: diverges_Cons_less)
next
  assume "x3 = y3 \<and> (x2 < y2 \<or> (x2 = y2 \<and> (x1 < y1 \<or> (x1 = y1 \<and> x0 < y0))))"
  then show ?thesis
    using diverges_Cons_eq [OF diverges3 [of x2 y2 x1 y1 x0 y0 l l], of "h + y3"] by simp
qed

lemma digits3:
  fixes a b :: int
  assumes "a < b"
  shows "a div 64 div 64 < b div 64 div 64 \<or> (a div 64 div 64 = b div 64 div 64 \<and>
      (a div 64 mod 64 < b div 64 mod 64 \<or> (a div 64 mod 64 = b div 64 mod 64 \<and> a mod 64 < b mod 64)))"
proof (cases "a div 64 < b div 64")
  case True
  from lex64 [OF True] show ?thesis by blast
next
  case False
  with lex64 [OF assms] have eq: "a div 64 = b div 64" and r: "a mod 64 < b mod 64"
    by blast+
  from eq have "a div 64 div 64 = b div 64 div 64" "a div 64 mod 64 = b div 64 mod 64"
    by simp_all
  with r show ?thesis by blast
qed

lemma digits4:
  fixes a b :: int
  assumes "a < b"
  shows "a div 64 div 64 div 64 < b div 64 div 64 div 64 \<or>
      (a div 64 div 64 div 64 = b div 64 div 64 div 64 \<and>
       (a div 64 div 64 mod 64 < b div 64 div 64 mod 64 \<or> (a div 64 div 64 mod 64 = b div 64 div 64 mod 64 \<and>
        (a div 64 mod 64 < b div 64 mod 64 \<or> (a div 64 mod 64 = b div 64 mod 64 \<and> a mod 64 < b mod 64)))))"
proof (cases "a div 64 div 64 < b div 64 div 64")
  case True
  from lex64 [OF True] show ?thesis by blast
next
  case False
  with digits3 [OF assms] have eq: "a div 64 div 64 = b div 64 div 64"
    and r: "a div 64 mod 64 < b div 64 mod 64 \<or>
      (a div 64 mod 64 = b div 64 mod 64 \<and> a mod 64 < b mod 64)"
    by blast+
  from eq have "a div 64 div 64 div 64 = b div 64 div 64 div 64"
    "a div 64 div 64 mod 64 = b div 64 div 64 mod 64"
    by simp_all
  with r show ?thesis by blast
qed

lemma lead_bytes:
  fixes c :: int
  shows "c < 2048 \<Longrightarrow> c div 64 < 32"
    and "c < 65536 \<Longrightarrow> c div 64 div 64 < 16"
    and "0 \<le> c \<Longrightarrow> 0 \<le> c div 64"
    and "0 \<le> c \<Longrightarrow> 0 \<le> c div 64 div 64"
    and "0 \<le> c \<Longrightarrow> 0 \<le> c div 64 div 64 div 64"
proof -
  show "c div 64 < 32" if "c < 2048"
    using that divmod64 [of c] by linarith
  show "c div 64 div 64 < 16" if "c < 65536"
    using that divmod64 [of c] divmod64 [of "c div 64"] by linarith
  show "0 \<le> c div 64" if "0 \<le> c"
    using that by (simp add: pos_imp_zdiv_nonneg_iff)
  show "0 \<le> c div 64 div 64" if "0 \<le> c"
    using that by (simp add: pos_imp_zdiv_nonneg_iff)
  show "0 \<le> c div 64 div 64 div 64" if "0 \<le> c"
    using that by (simp add: pos_imp_zdiv_nonneg_iff)
qed

lemma utf8_char_1: "c < 128 \<Longrightarrow> utf8_char c = [c]"
  by (simp add: utf8_char_def)

lemma utf8_char_2:
  "128 \<le> c \<Longrightarrow> c < 2048 \<Longrightarrow> utf8_char c = [192 + c div 64, 128 + c mod 64]"
  by (simp add: utf8_char_def)

lemma utf8_char_3:
  "2048 \<le> c \<Longrightarrow> c < 65536 \<Longrightarrow>
   utf8_char c = [224 + c div 64 div 64, 128 + c div 64 mod 64, 128 + c mod 64]"
  by (simp add: utf8_char_def)

lemma utf8_char_4:
  "65536 \<le> c \<Longrightarrow>
   utf8_char c = [240 + c div 64 div 64 div 64, 128 + c div 64 div 64 mod 64,
                  128 + c div 64 mod 64, 128 + c mod 64]"
  by (simp add: utf8_char_def)

lemma utf8_char_diverges:
  assumes "0 \<le> a" "a < b" "b < 1114112"
  shows "diverges (utf8_char a) (utf8_char b)"
proof -
  have b0: "0 \<le> b" using assms by simp
  consider (b1) "b < 128" | (b2) "128 \<le> b" "b < 2048" | (b3) "2048 \<le> b" "b < 65536"
    | (b4) "65536 \<le> b"
    by linarith
  then show ?thesis
  proof cases
    case b1
    then have "a < 128" using assms(2) by simp
    then show ?thesis
      unfolding utf8_char_1 [OF b1] utf8_char_1 [OF \<open>a < 128\<close>]
      using assms(2) by (rule_tac diverges_Cons_less)
  next
    case b2
    show ?thesis
    proof (cases "a < 128")
      case True
      have "a < 192 + b div 64" using True lead_bytes(3) [OF b0] by linarith
      then show ?thesis
        unfolding utf8_char_2 [OF b2] utf8_char_1 [OF True] by (rule diverges_Cons_less)
    next
      case False
      then have a: "128 \<le> a" "a < 2048" using b2 assms(2) by simp_all
      show ?thesis
        unfolding utf8_char_2 [OF b2] utf8_char_2 [OF a]
        by (rule diverges2 [OF lex64 [OF assms(2)]])
    qed
  next
    case b3
    consider (a1) "a < 128" | (a2) "128 \<le> a" "a < 2048" | (a3) "2048 \<le> a" "a < 65536"
      using b3 assms(2) by linarith
    then show ?thesis
    proof cases
      case a1
      have "a < 224 + b div 64 div 64" using a1 lead_bytes(4) [OF b0] by linarith
      then show ?thesis
        unfolding utf8_char_3 [OF b3] utf8_char_1 [OF a1] by (rule diverges_Cons_less)
    next
      case a2
      have "192 + a div 64 < 224 + b div 64 div 64"
        using lead_bytes(1) [OF a2(2)] lead_bytes(4) [OF b0] by linarith
      then show ?thesis
        unfolding utf8_char_3 [OF b3] utf8_char_2 [OF a2] by (rule diverges_Cons_less)
    next
      case a3
      show ?thesis
        unfolding utf8_char_3 [OF b3] utf8_char_3 [OF a3]
        by (rule diverges3 [OF digits3 [OF assms(2)]])
    qed
  next
    case b4
    consider (a1) "a < 128" | (a2) "128 \<le> a" "a < 2048" | (a3) "2048 \<le> a" "a < 65536"
      | (a4) "65536 \<le> a"
      by linarith
    then show ?thesis
    proof cases
      case a1
      have "a < 240 + b div 64 div 64 div 64" using a1 lead_bytes(5) [OF b0] by linarith
      then show ?thesis
        unfolding utf8_char_4 [OF b4] utf8_char_1 [OF a1] by (rule diverges_Cons_less)
    next
      case a2
      have "192 + a div 64 < 240 + b div 64 div 64 div 64"
        using lead_bytes(1) [OF a2(2)] lead_bytes(5) [OF b0] by linarith
      then show ?thesis
        unfolding utf8_char_4 [OF b4] utf8_char_2 [OF a2] by (rule diverges_Cons_less)
    next
      case a3
      have "224 + a div 64 div 64 < 240 + b div 64 div 64 div 64"
        using lead_bytes(2) [OF a3(2)] lead_bytes(5) [OF b0] by linarith
      then show ?thesis
        unfolding utf8_char_4 [OF b4] utf8_char_3 [OF a3] by (rule diverges_Cons_less)
    next
      case a4
      show ?thesis
        unfolding utf8_char_4 [OF b4] utf8_char_4 [OF a4]
        by (rule diverges4 [OF digits4 [OF assms(2)]])
    qed
  qed
qed

lemma utf8_char_not_Nil: "utf8_char c \<noteq> []"
  by (simp add: utf8_char_def)

lemma append_less_append_left: "(zs @ xs < zs @ ys) = (xs < (ys :: int list))"
  by (induction zs) simp_all

lemma utf8_strict_mono:
  assumes "xs < ys" "list_all code_point xs" "list_all code_point ys"
  shows "utf8 xs < utf8 ys"
  using assms
proof (induction xs arbitrary: ys)
  case Nil
  then obtain y ys' where "ys = y # ys'" by (cases ys) auto
  then show ?case
    using utf8_char_not_Nil [of y] by (cases "utf8_char y") (auto simp: utf8_def)
next
  case (Cons x xs)
  then obtain y ys' where ys: "ys = y # ys'" by (cases ys) auto
  with Cons.prems have cp: "code_point x" "code_point y" "list_all code_point xs"
    "list_all code_point ys'" by simp_all
  from Cons.prems(1) ys consider "x < y" | "x = y" "xs < ys'" by auto
  then show ?case
  proof cases
    case 1
    from utf8_char_diverges [of x y] 1 cp(1,2)
    have "diverges (utf8_char x) (utf8_char y)" by (simp add: code_point_def)
    from diverges_less [OF diverges_append [OF this]] show ?thesis
      by (simp add: utf8_def ys)
  next
    case 2
    from Cons.IH [OF 2(2) cp(3,4)] show ?thesis
      by (simp add: utf8_def ys 2(1) append_less_append_left)
  qed
qed

lemma utf8_sorted:
  assumes "sorted_wrt (<) ks" "\<forall>k\<in>set ks. list_all code_point k"
  shows "sorted_wrt (<) (map utf8 ks)"
  unfolding sorted_wrt_map
  using assms(2) by (intro sorted_wrt_mono_rel [OF _ assms(1)]) (simp add: utf8_strict_mono)

lemma parse_process_char_chars:
  "parse_process_char r c = Inr r' \<Longrightarrow>
   chars_of r' \<subseteq> chars_of r \<union> (case c of Ch x \<Rightarrow> {x} | EOL \<Rightarrow> {})"
  by (auto simp: parse_process_char_def process_START_FIELD_def parse_add_char_def
      parse_save_field_def with_state_def chars_of_def
      split: ParserState.splits csv_char.splits if_splits sum.splits)

lemma process_chars_chars:
  "process_chars r cs = Inr r' \<Longrightarrow> chars_of r' \<subseteq> chars_of r \<union> set cs"
proof (induction cs arbitrary: r)
  case Nil
  then show ?case by simp
next
  case (Cons c cs)
  then obtain r1 where r1: "parse_process_char r (Ch c) = Inr r1" "process_chars r1 cs = Inr r'"
    by (auto split: sum.splits)
  from parse_process_char_chars [OF r1(1)] Cons.IH [OF r1(2)] show ?case
    by auto
qed

lemma process_line_chars:
  assumes "process_line r l = Inr r'"
  shows "chars_of r' \<subseteq> chars_of r \<union> set l"
proof -
  from assms obtain r1 where r1: "process_chars r l = Inr r1" "parse_process_char r1 EOL = Inr r'"
    by (auto simp: process_line_def split: sum.splits)
  from process_chars_chars [OF r1(1)] parse_process_char_chars [OF r1(2)] show ?thesis
    by auto
qed

lemma read_record_chars:
  "read_record r ls = Some (Inr (row, rest)) \<Longrightarrow>
   \<Union> (set ` set row) \<subseteq> chars_of r \<union> \<Union> (set ` set ls) \<and> set rest \<subseteq> set ls"
proof (induction ls arbitrary: r)
  case Nil
  then show ?case
    by (auto simp: parse_save_field_def chars_of_def split: if_splits)
next
  case (Cons l ls)
  then obtain r1 where r1: "process_line r l = Inr r1"
    by (auto split: sum.splits)
  note c = process_line_chars [OF r1]
  show ?case
  proof (cases "state r1 = START_RECORD")
    case True
    with Cons.prems r1 have "row = row_fields r1" "rest = ls" by simp_all
    with c show ?thesis by (auto simp: chars_of_def)
  next
    case False
    with Cons.prems r1 have "read_record r1 ls = Some (Inr (row, rest))" by simp
    from Cons.IH [OF this] c show ?thesis by auto
  qed
qed

lemma Reader_iternext_chars:
  assumes "Reader_iternext ls = Some (Inr (row, rest))"
  shows "\<Union> (set ` set row) \<subseteq> \<Union> (set ` set ls)" "set rest \<subseteq> set ls"
  using read_record_chars [of parse_reset ls row rest] assms
  by (auto simp: Reader_iternext_def chars_of_def parse_reset_def)

lemma parse_row_key: "parse_row row = Inr (k, v) \<Longrightarrow> k \<in> set row"
  by (auto simp: parse_row_def list_index_def split: sum.splits if_splits)

lemma keys_dict_set: "fst ` set (dict_set d k v) = insert k (fst ` set d)"
proof -
  have "set (map fst (dict_set d k v)) = insert k (set (map fst d))"
    unfolding map_fst_dict_set by (cases "k \<in> fst ` set d") auto
  then show ?thesis by simp
qed

lemma keys_ingest:
  "fst ` set (medicoes (ingest k v t)) = insert k (fst ` set (medicoes t))"
  by (simp add: ingest_def counter_update_def keys_dict_set split: prod.split)

lemma ingest_rows_keys:
  "ingest_rows ls t = Inr t' \<Longrightarrow> k \<in> fst ` set (medicoes t') \<Longrightarrow>
   k \<in> fst ` set (medicoes t) \<or> set k \<subseteq> \<Union> (set ` set ls)"
proof (induction "length ls" arbitrary: ls t rule: less_induct)
  case less
  show ?case
  proof (cases "Reader_iternext ls")
    case None
    with less.prems show ?thesis
      by (simp add: ingest_rows_end)
  next
    case (Some x)
    show ?thesis
    proof (cases x)
      case (Inl e)
      with Some less.prems(1) show ?thesis
        by (subst (asm) ingest_rows.simps) simp
    next
      case (Inr p)
      obtain row rest where p: "p = (row, rest)" by (cases p)
      note it = Some [unfolded Inr p]
      note ch = Reader_iternext_chars [OF it]
      show ?thesis
      proof (cases "parse_row row")
        case (Inl e)
        with it less.prems(1) show ?thesis
          by (subst (asm) ingest_rows.simps) simp
      next
        case (Inr kv)
        obtain k' v where kv: "kv = (k', v)" by (cases kv)
        note pr = Inr [unfolded kv]
        from less.prems(1) have "ingest_rows rest (ingest k' v t) = Inr t'"
          by (simp add: ingest_rows_step [OF it pr])
        from less.hyps [OF Reader_iternext_shorter [OF it] this less.prems(2)]
        have "k \<in> fst ` set (medicoes (ingest k' v t)) \<or> set k \<subseteq> \<Union> (set ` set rest)" .
        then consider "k = k'" | "k \<in> fst ` set (medicoes t)"
          | "set k \<subseteq> \<Union> (set ` set rest)"
          by (auto simp: keys_ingest)
        then show ?thesis
        proof cases
          case 1
          have "k' \<in> set row" by (rule parse_row_key [OF pr])
          then have sub: "set k' \<subseteq> \<Union> (set ` set row)" by blast
          from sub ch(1) have "set k' \<subseteq> \<Union> (set ` set ls)" by (rule subset_trans)
          with 1 show ?thesis by simp
        next
          case 2
          then show ?thesis by simp
        next
          case 3
          have mono: "\<Union> (set ` set rest) \<subseteq> \<Union> (set ` set ls)"
            using ch(2) by blast
          from 3 mono have "set k \<subseteq> \<Union> (set ` set ls)" by (rule subset_trans)
          then show ?thesis by simp
        qed
      qed
    qed
  qed
qed

lemma dict_set_fresh: "k \<notin> fst ` set d \<Longrightarrow> dict_set d k v = d @ [(k, v)]"
  by (induction d) auto

lemma foldl_dict_set_distinct:
  "distinct (map fst (acc @ xs)) \<Longrightarrow> foldl (\<lambda>d (k, v). dict_set d k v) acc xs = acc @ xs"
proof (induction xs arbitrary: acc)
  case Nil
  then show ?case by simp
next
  case (Cons x xs)
  obtain k v where x: "x = (k, v)" by (cases x)
  from Cons.prems have fresh: "k \<notin> fst ` set acc" and d: "distinct (map fst ((acc @ [(k, v)]) @ xs))"
    by (auto simp: x)
  from Cons.IH [OF d] show ?case
    by (simp add: x dict_set_fresh [OF fresh])
qed

lemma dict_of_items_distinct: "distinct (map fst xs) \<Longrightarrow> dict_of_items xs = xs"
  using foldl_dict_set_distinct [of "[]" xs] by (simp add: dict_of_items_def)

lemma calc_results_keys:
  "calc_results t items acc = Inr r \<Longrightarrow> distinct (map fst acc @ map fst items) \<Longrightarrow>
   map fst r = map fst acc @ map fst items"
proof (induction items arbitrary: acc)
  case Nil
  then show ?case by simp
next
  case (Cons item items)
  obtain k c where item: "item = (k, c)" by (cases item)
  from Cons.prems(1) obtain y where
    y: "calc_results t items (dict_set acc k
          (fst (defaultdict_getitem (minimas t) (Infinity False) k), y,
           fst (defaultdict_getitem (maximas t) (Infinity True) k))) = Inr r"
    by (auto simp: item split: sum.splits)
  from Cons.prems(2) have fresh: "k \<notin> fst ` set acc"
    by (auto simp: item)
  have "distinct (map fst (dict_set acc k
          (fst (defaultdict_getitem (minimas t) (Infinity False) k), y,
           fst (defaultdict_getitem (maximas t) (Infinity True) k))) @ map fst items)"
    using Cons.prems(2) by (simp add: dict_set_fresh [OF fresh] item)
  from Cons.IH [OF y this] show ?case
    by (simp add: dict_set_fresh [OF fresh] item)
qed

lemma distinct_keys_sort_key:
  assumes "distinct (map fst xs)"
  shows "distinct (map fst (sort_key fst xs))"
proof -
  have "mset (map fst (sort_key fst xs)) = mset (map fst xs)"
    by simp
  from mset_eq_imp_distinct_iff [OF this] assms show ?thesis by simp
qed

lemma fst_format_entry: "fst (format_entry x) = fst x"
  by (simp add: format_entry_def split: prod.splits)

lemma map_fst_format_entry: "map fst (map format_entry xs) = map fst xs"
  by (simp add: fst_format_entry)

lemma formatted_results_keys:
  assumes "distinct (map fst results)"
  shows "map fst (formatted_results results) = map fst (sort_key fst results)"
proof -
  note d = distinct_keys_sort_key [OF assms]
  have s: "sorted_results results = sort_key fst results"
    by (simp add: sorted_results_def dict_of_items_distinct [OF d])
  have "distinct (map fst (map format_entry (sort_key fst results)))"
    using d by (simp only: map_fst_format_entry)
  then have "dict_of_items (map format_entry (sort_key fst results)) =
      map format_entry (sort_key fst results)"
    by (rule dict_of_items_distinct)
  then show ?thesis
    by (simp only: formatted_results_def s map_fst_format_entry)
qed

text \<open>
  C5. Whenever the function returns, the keys of the returned dictionary, in its order
  (the order in which \<^verbatim>\<open>main\<close> prints them), are strictly increasing in the order of
  \<^verbatim>\<open>str\<close>, hence without duplicates, and their UTF-8 encodings are strictly
  increasing in the byte-wise lexicographic order.
\<close>

theorem output_keys_strictly_increasing:
  assumes "processar_temperaturas ls = Inr out"
    and "\<forall>l\<in>set ls. list_all code_point l"
  shows "sorted_wrt (<) (map fst out) \<and> distinct (map fst out) \<and>
         sorted_wrt (<) (map (\<lambda>item. utf8 (fst item)) out)"
proof -
  from assms(1) obtain t results where
    t: "ingest_rows ls empty_tables = Inr t" and res: "snapshot t = Inr results"
    and out: "out = formatted_results results"
    by (auto simp: processar_temperaturas_def split: sum.splits prod.splits)
  from ingest_rows_result [OF t] obtain recs where "t = ingest_all recs empty_tables"
    by auto
  then have dm: "distinct (map fst (medicoes t))"
    using distinct_medicoes_ingest_all [of empty_tables recs] by (simp add: empty_tables_def)
  have keys: "map fst results = map fst (medicoes t)"
    using calc_results_keys [OF res [unfolded snapshot_def]] dm by simp
  then have dr: "distinct (map fst results)" using dm by simp
  have ok: "map fst out = map fst (sort_key fst results)"
    unfolding out by (rule formatted_results_keys [OF dr])
  have strict: "sorted_wrt (<) (map fst out)"
    unfolding ok strict_sorted_iff using distinct_keys_sort_key [OF dr] by simp
  have valid: "\<forall>k\<in>set (map fst out). list_all code_point k"
  proof
    fix k assume "k \<in> set (map fst out)"
    then have "k \<in> fst ` set (medicoes t)"
      using ok keys by (metis image_set set_sort)
    from ingest_rows_keys [OF t this] have "set k \<subseteq> \<Union> (set ` set ls)"
      by (simp add: empty_tables_def)
    with assms(2) show "list_all code_point k"
      by (auto simp: list_all_iff)
  qed
  from utf8_sorted [OF strict valid] have "sorted_wrt (<) (map (\<lambda>item. utf8 (fst item)) out)"
    by (simp add: comp_def)
  with strict show ?thesis
    by (simp add: strict_sorted_iff)
qed

text \<open>
  The theorem at the lines \<^verbatim>\<open>B;-5.5\<close>, \<^verbatim>\<open>A;10.0\<close>, a line with the key U+00E9 (two
  bytes in UTF-8) and \<^verbatim>\<open>AB;1\<close>.
\<close>

theorem output_keys_strictly_increasing_witness:
  "processar_temperaturas [str ''B;-5.5'' @ [10], str ''A;10.0'' @ [10], [233, 59, 49, 10], str ''AB;1'' @ [10]] =
     Inr [(str ''A'', str ''10.0/10.0/10.0''), (str ''AB'', str ''1.0/1.0/1.0''),
          (str ''B'', str ''-5.5/-5.5/-5.5''), ([233], str ''1.0/1.0/1.0'')]
   \<and> list_all (list_all code_point) [str ''B;-5.5'' @ [10], str ''A;10.0'' @ [10], [233, 59, 49, 10], str ''AB;1'' @ [10]]
   \<and> map (\<lambda>item. utf8 (fst item)) [(str ''A'', str ''10.0/10.0/10.0''), (str ''AB'', str ''1.0/1.0/1.0''),
          (str ''B'', str ''-5.5/-5.5/-5.5''), ([233], str ''1.0/1.0/1.0'')] = [[65], [65, 66], [66], [195, 169]]
   \<and> sorted_wrt (<) (map fst [(str ''A'', str ''10.0/10.0/10.0''), (str ''AB'', str ''1.0/1.0/1.0''),
          (str ''B'', str ''-5.5/-5.5/-5.5''), ([233], str ''1.0/1.0/1.0'')])
   \<and> distinct (map fst [(str ''A'', str ''10.0/10.0/10.0''), (str ''AB'', str ''1.0/1.0/1.0''),
          (str ''B'', str ''-5.5/-5.5/-5.5''), ([233], str ''1.0/1.0/1.0'')])
   \<and> sorted_wrt (<) (map (\<lambda>item. utf8 (fst item)) [(str ''A'', str ''10.0/10.0/10.0''), (str ''AB'', str ''1.0/1.0/1.0''),
          (str ''B'', str ''-5.5/-5.5/-5.5''), ([233], str ''1.0/1.0/1.0'')])"
proof -
  have p: "processar_temperaturas [str ''B;-5.5'' @ [10], str ''A;10.0'' @ [10], [233, 59, 49, 10], str ''AB;1'' @ [10]] =
     Inr [(str ''A'', str ''10.0/10.0/10.0''), (str ''AB'', str ''1.0/1.0/1.0''),
          (str ''B'', str ''-5.5/-5.5/-5.5''), ([233], str ''1.0/1.0/1.0'')]"
    by code_simp
  have v: "list_all (list_all code_point) [str ''B;-5.5'' @ [10], str ''A;10.0'' @ [10], [233, 59, 49, 10], str ''AB;1'' @ [10]]"
    by code_simp
  have v': "\<forall>l\<in>set [str ''B;-5.5'' @ [10], str ''A;10.0'' @ [10], [233, 59, 49, 10], str ''AB;1'' @ [10]]. list_all code_point l"
    by code_simp
  have u: "map (\<lambda>item. utf8 (fst item)) [(str ''A'', str ''10.0/10.0/10.0''), (str ''AB'', str ''1.0/1.0/1.0''),
          (str ''B'', str ''-5.5/-5.5/-5.5''), ([233], str ''1.0/1.0/1.0'')] = [[65], [65, 66], [66], [195, 169]]"
    by code_simp
  note c = output_keys_strictly_increasing [OF p v']
  show ?thesis
    by (rule conjI p v u c [THEN conjunct1] c [THEN conjunct2, THEN conjunct1]
        c [THEN conjunct2, THEN conjunct2])+
qed

end
